theory Spec2Isabelle
  imports Main "HOL-Library.Word"
begin

section \<open>Memory model\<close>

text \<open>
  The list of \<^verbatim>\<open>main.cpp\<close> is a chain of \<^verbatim>\<open>Node\<close> objects linked by raw pointers, and its
  iterators are raw pointers too, so the model keeps an explicit store.

  \<^item> An address is a natural number; a \<^verbatim>\<open>Node*\<close> is an optional address, \<open>None\<close> being
    \<^verbatim>\<open>nullptr\<close>.
  \<^item> \<open>node_at\<close> holds every live \<^verbatim>\<open>Node\<close> object: the nodes made by \<^verbatim>\<open>new\<close> and the
    \<^verbatim>\<open>head_\<close> member of every live list. \<^verbatim>\<open>head_\<close> is the first member of the class, so
    a list object at address \<open>this\<close> has its \<^verbatim>\<open>head_\<close> at \<open>this\<close> (\<^verbatim>\<open>&this->head_\<close>).
  \<^item> \<open>size_at this\<close> is the \<^verbatim>\<open>size_\<close> member of the list object at \<open>this\<close>, a 64-bit
    \<^verbatim>\<open>size_t\<close> that wraps around.
  \<^item> \<open>next_free\<close> is the allocator: storage is handed out at increasing addresses and
    never reused.

  The member names \<^verbatim>\<open>value\<close>, \<^verbatim>\<open>node_\<close>, \<^verbatim>\<open>head_\<close>, \<^verbatim>\<open>size_\<close>, \<^verbatim>\<open>begin\<close> and \<^verbatim>\<open>end\<close> are not
  admissible names here; they appear as \<open>val\<close>, \<open>node\<close>, \<open>node_at this\<close>, \<open>size_at this\<close>,
  \<open>list_begin\<close> and \<open>list_end\<close>.
\<close>

type_synonym addr = nat
type_synonym ptr = "addr option"
type_synonym size_t = "64 word"

record 'a Node =
  val :: 'a
  next_node :: ptr

datatype BasicIterator = BasicIterator (node : ptr)

record 'a state =
  node_at :: "addr \<rightharpoonup> 'a Node"
  size_at :: "addr \<rightharpoonup> size_t"
  next_free :: addr

text \<open>
  The template parameter \<^verbatim>\<open>Type\<close> enters through the operations the list uses: its copy
  constructor, which either throws or yields an equal value, its operators \<^verbatim>\<open>==\<close> and
  \<^verbatim>\<open><\<close>, and the two ways in which the value slot of a sentinel comes to exist.
  \<open>T_default\<close> is the value-initialised \<^verbatim>\<open>Type()\<close>. \<open>T_uninit\<close> is what default
  initialisation leaves in the slot: the default constructor's result for a class type,
  an indeterminate value for a scalar type such as \<^verbatim>\<open>int\<close>. It is a parameter, so
  nothing is known about it.
\<close>

record 'a Type_ops =
  T_default :: 'a
  T_uninit :: 'a
  copy_throws :: "'a \<Rightarrow> bool"
  T_eq :: "'a \<Rightarrow> 'a \<Rightarrow> bool"
  T_less :: "'a \<Rightarrow> 'a \<Rightarrow> bool"

text \<open>
  An operation ends normally, or with a failed \<^verbatim>\<open>assert\<close> (debug builds only), or with
  undefined behaviour (a null or dangling pointer is dereferenced), or with the exception
  of a throwing copy constructor. The state at that moment is returned with the outcome.
  Every function with an \<^verbatim>\<open>assert\<close> takes the flag \<open>nd\<close>: \<open>True\<close> is a build with
  \<^verbatim>\<open>NDEBUG\<close>, where assertions are compiled out.
\<close>

datatype error = AssertionFailed | UndefinedBehaviour | CopyFailed

type_synonym ('r, 'a) outcome = "(error + 'r) \<times> 'a state"

section \<open>Iterators\<close>

definition iter_eq :: "BasicIterator \<Rightarrow> BasicIterator \<Rightarrow> bool" where
  "iter_eq a b = (node a = node b)"

definition iter_ne :: "BasicIterator \<Rightarrow> BasicIterator \<Rightarrow> bool" where
  "iter_ne a b = (node a \<noteq> node b)"

text \<open>\<^verbatim>\<open>operator++\<close>: \<^verbatim>\<open>node_ = node_->next_node\<close>.\<close>

definition iter_incr :: "'a state \<Rightarrow> BasicIterator \<Rightarrow> error + BasicIterator" where
  "iter_incr s it =
     (case node it of
        None \<Rightarrow> Inl UndefinedBehaviour
      | Some a \<Rightarrow>
          (case node_at s a of
             None \<Rightarrow> Inl UndefinedBehaviour
           | Some n \<Rightarrow> Inr (BasicIterator (next_node n))))"

text \<open>\<^verbatim>\<open>operator*\<close>: \<^verbatim>\<open>node_->value\<close>.\<close>

definition iter_deref :: "'a state \<Rightarrow> BasicIterator \<Rightarrow> error + 'a" where
  "iter_deref s it =
     (case node it of
        None \<Rightarrow> Inl UndefinedBehaviour
      | Some a \<Rightarrow>
          (case node_at s a of
             None \<Rightarrow> Inl UndefinedBehaviour
           | Some n \<Rightarrow> Inr (val n)))"

definition list_begin :: "'a state \<Rightarrow> addr \<Rightarrow> error + BasicIterator" where
  "list_begin s this =
     (case node_at s this of
        None \<Rightarrow> Inl UndefinedBehaviour
      | Some h \<Rightarrow> Inr (BasicIterator (next_node h)))"

definition list_end :: BasicIterator where
  "list_end = BasicIterator None"

definition before_begin :: "addr \<Rightarrow> BasicIterator" where
  "before_begin this = BasicIterator (Some this)"

definition cbefore_begin :: "addr \<Rightarrow> BasicIterator" where
  "cbefore_begin this = BasicIterator (Some this)"

section \<open>Construction, size, allocation\<close>

text \<open>
  A constructor without a member initialiser list leaves the members to their default
  initialisers: \<^verbatim>\<open>head_\<close> is default-initialised, with \<^verbatim>\<open>next_node = nullptr\<close> and the
  value slot holding \<open>v\<close>, and \<^verbatim>\<open>size_ = 0\<close>.
\<close>

definition init_members :: "'a \<Rightarrow> addr \<Rightarrow> 'a state \<Rightarrow> 'a state" where
  "init_members v this s =
     s\<lparr>node_at := (node_at s)(this \<mapsto> \<lparr>val = v, next_node = None\<rparr>),
       size_at := (size_at s)(this \<mapsto> 0)\<rparr>"

text \<open>
  The default constructor, \<^verbatim>\<open>head_(Node()), size_(0)\<close>: here \<^verbatim>\<open>Node()\<close> is
  value-initialised, so the value slot holds \<^verbatim>\<open>Type()\<close>.
\<close>

definition SingleLinkedList_default :: "'a Type_ops \<Rightarrow> addr \<Rightarrow> 'a state \<Rightarrow> 'a state" where
  "SingleLinkedList_default T this s = init_members (T_default T) this s"

definition GetSize :: "'a state \<Rightarrow> addr \<Rightarrow> error + size_t" where
  "GetSize s this =
     (case size_at s this of None \<Rightarrow> Inl UndefinedBehaviour | Some n \<Rightarrow> Inr n)"

definition IsEmpty :: "'a state \<Rightarrow> addr \<Rightarrow> error + bool" where
  "IsEmpty s this =
     (case size_at s this of None \<Rightarrow> Inl UndefinedBehaviour | Some n \<Rightarrow> Inr (n = 0))"

text \<open>Storage for a local list object, and its release at the end of the scope.\<close>

definition alloc_obj :: "'a state \<Rightarrow> addr \<times> 'a state" where
  "alloc_obj s = (next_free s, s\<lparr>next_free := Suc (next_free s)\<rparr>)"

definition release :: "addr \<Rightarrow> 'a state \<Rightarrow> 'a state" where
  "release this s =
     s\<lparr>node_at := (node_at s)(this := None), size_at := (size_at s)(this := None)\<rparr>"

text \<open>
  \<^verbatim>\<open>new Node(value, next)\<close>: the value is copied into fresh storage. When the copy
  constructor throws, the new-expression gives the storage back and nothing has changed;
  a failing allocation leaves by the same path.
\<close>

definition new_Node :: "'a Type_ops \<Rightarrow> 'a \<Rightarrow> ptr \<Rightarrow> 'a state \<Rightarrow> (addr, 'a) outcome" where
  "new_Node T v nx s =
     (if copy_throws T v then (Inl CopyFailed, s)
      else (Inr (next_free s),
            s\<lparr>node_at := (node_at s)(next_free s \<mapsto> \<lparr>val = v, next_node = nx\<rparr>),
              next_free := Suc (next_free s)\<rparr>))"

section \<open>The member functions\<close>

definition PushFront :: "'a Type_ops \<Rightarrow> addr \<Rightarrow> 'a \<Rightarrow> 'a state \<Rightarrow> (unit, 'a) outcome" where
  "PushFront T this v s =
     (case node_at s this of
        None \<Rightarrow> (Inl UndefinedBehaviour, s)
      | Some h \<Rightarrow>
          (case new_Node T v (next_node h) s of
             (Inl e, s1) \<Rightarrow> (Inl e, s1)
           | (Inr a, s1) \<Rightarrow>
               (let s2 = s1\<lparr>node_at := (node_at s1)(this \<mapsto> h\<lparr>next_node := Some a\<rparr>)\<rparr>
                in case size_at s2 this of
                     None \<Rightarrow> (Inl UndefinedBehaviour, s2)
                   | Some n \<Rightarrow> (Inr (), s2\<lparr>size_at := (size_at s2)(this \<mapsto> n + 1)\<rparr>))))"

definition PopFront :: "bool \<Rightarrow> addr \<Rightarrow> 'a state \<Rightarrow> (unit, 'a) outcome" where
  "PopFront nd this s =
     (case size_at s this of
        None \<Rightarrow> (Inl UndefinedBehaviour, s)
      | Some n \<Rightarrow>
          (case node_at s this of
             None \<Rightarrow> (Inl UndefinedBehaviour, s)
           | Some h \<Rightarrow>
               if \<not> nd \<and> n = 0 then (Inl AssertionFailed, s)
               else if \<not> nd \<and> next_node h = None then (Inl AssertionFailed, s)
               else if n = 0 then (Inr (), s)
               else
                 (case next_node h of
                    None \<Rightarrow> (Inl UndefinedBehaviour, s)
                  | Some f \<Rightarrow>
                      (case node_at s f of
                         None \<Rightarrow> (Inl UndefinedBehaviour, s)
                       | Some fnode \<Rightarrow>
                           (Inr (),
                            s\<lparr>node_at := ((node_at s)(f := None))
                                            (this \<mapsto> h\<lparr>next_node := next_node fnode\<rparr>),
                              size_at := (size_at s)(this \<mapsto> n - 1)\<rparr>)))))"

partial_function (option) Clear :: "bool \<Rightarrow> addr \<Rightarrow> 'a state \<Rightarrow> (unit, 'a) outcome option" where
  "Clear nd this s =
     (case node_at s this of
        None \<Rightarrow> Some (Inl UndefinedBehaviour, s)
      | Some h \<Rightarrow>
          if next_node h = None then Some (Inr (), s)
          else
            (case PopFront nd this s of
               (Inl e, s1) \<Rightarrow> Some (Inl e, s1)
             | (Inr u, s1) \<Rightarrow> Clear nd this s1))"

definition swap :: "addr \<Rightarrow> addr \<Rightarrow> 'a state \<Rightarrow> (unit, 'a) outcome" where
  "swap this other s =
     (case (node_at s this, node_at s other, size_at s this, size_at s other) of
        (Some h1, Some h2, Some n1, Some n2) \<Rightarrow>
          (Inr (),
           s\<lparr>node_at := (node_at s)(this \<mapsto> h1\<lparr>next_node := next_node h2\<rparr>,
                                     other \<mapsto> h2\<lparr>next_node := next_node h1\<rparr>),
             size_at := (size_at s)(this \<mapsto> n2, other \<mapsto> n1)\<rparr>)
      | _ \<Rightarrow> (Inl UndefinedBehaviour, s))"

definition InsertAfter ::
  "bool \<Rightarrow> 'a Type_ops \<Rightarrow> addr \<Rightarrow> BasicIterator \<Rightarrow> 'a \<Rightarrow> 'a state
     \<Rightarrow> (BasicIterator, 'a) outcome" where
  "InsertAfter nd T this pos v s =
     (case node pos of
        None \<Rightarrow> (Inl (if nd then UndefinedBehaviour else AssertionFailed), s)
      | Some before \<Rightarrow>
          (case node_at s before of
             None \<Rightarrow> (Inl UndefinedBehaviour, s)
           | Some bn \<Rightarrow>
               (case new_Node T v (next_node bn) s of
                  (Inl e, s1) \<Rightarrow> (Inl e, s1)
                | (Inr a, s1) \<Rightarrow>
                    (let s2 = s1\<lparr>node_at := (node_at s1)(before \<mapsto> bn\<lparr>next_node := Some a\<rparr>)\<rparr>
                     in case size_at s2 this of
                          None \<Rightarrow> (Inl UndefinedBehaviour, s2)
                        | Some n \<Rightarrow>
                            (Inr (BasicIterator (Some a)),
                             s2\<lparr>size_at := (size_at s2)(this \<mapsto> n + 1)\<rparr>)))))"

definition EraseAfter ::
  "bool \<Rightarrow> addr \<Rightarrow> BasicIterator \<Rightarrow> 'a state \<Rightarrow> (BasicIterator, 'a) outcome" where
  "EraseAfter nd this pos s =
     (case node pos of
        None \<Rightarrow> (Inl (if nd then UndefinedBehaviour else AssertionFailed), s)
      | Some before \<Rightarrow>
          (case node_at s before of
             None \<Rightarrow> (Inl UndefinedBehaviour, s)
           | Some bn \<Rightarrow>
               (case next_node bn of
                  None \<Rightarrow> (Inl UndefinedBehaviour, s)
                | Some d \<Rightarrow>
                    (case node_at s d of
                       None \<Rightarrow> (Inl UndefinedBehaviour, s)
                     | Some dn \<Rightarrow>
                         (let s1 = s\<lparr>node_at := ((node_at s)(d := None))
                                                   (before \<mapsto> bn\<lparr>next_node := next_node dn\<rparr>)\<rparr>
                          in case size_at s1 this of
                               None \<Rightarrow> (Inl UndefinedBehaviour, s1)
                             | Some n \<Rightarrow>
                                 (Inr (BasicIterator (next_node dn)),
                                  s1\<lparr>size_at := (size_at s1)(this \<mapsto> n - 1)\<rparr>))))))"

text \<open>
  \<^verbatim>\<open>InsetAfterListItems\<close> is a template over the container. It is used with a
  \<^verbatim>\<open>std::initializer_list\<close>, a finite array (here a list of values), and with another
  \<^verbatim>\<open>SingleLinkedList\<close>, which it walks through iterators. The second loop follows
  pointers and need not end on a cyclic chain, hence the option: \<open>None\<close> is a run that
  never returns.
\<close>

fun InsetAfter_values ::
  "bool \<Rightarrow> 'a Type_ops \<Rightarrow> addr \<Rightarrow> BasicIterator \<Rightarrow> 'a list \<Rightarrow> 'a state
     \<Rightarrow> (unit, 'a) outcome" where
  "InsetAfter_values nd T tmp pos [] s = (Inr (), s)"
| "InsetAfter_values nd T tmp pos (v # vs) s =
     (case InsertAfter nd T tmp pos v s of
        (Inl e, s1) \<Rightarrow> (Inl e, s1)
      | (Inr p, s1) \<Rightarrow> InsetAfter_values nd T tmp p vs s1)"

definition InsetAfterListItems_values ::
  "bool \<Rightarrow> 'a Type_ops \<Rightarrow> addr \<Rightarrow> 'a list \<Rightarrow> 'a state \<Rightarrow> (unit, 'a) outcome" where
  "InsetAfterListItems_values nd T tmp vs s =
     InsetAfter_values nd T tmp (cbefore_begin tmp) vs s"

partial_function (option) InsetAfter_loop ::
  "bool \<Rightarrow> 'a Type_ops \<Rightarrow> addr \<Rightarrow> BasicIterator \<Rightarrow> BasicIterator \<Rightarrow> 'a state
     \<Rightarrow> (unit, 'a) outcome option" where
  "InsetAfter_loop nd T tmp pos it s =
     (if iter_ne it list_end then
        (case iter_deref s it of
           Inl e \<Rightarrow> Some (Inl e, s)
         | Inr v \<Rightarrow>
             (case InsertAfter nd T tmp pos v s of
                (Inl e, s1) \<Rightarrow> Some (Inl e, s1)
              | (Inr p, s1) \<Rightarrow>
                  (case iter_incr s1 it of
                     Inl e \<Rightarrow> Some (Inl e, s1)
                   | Inr it1 \<Rightarrow> InsetAfter_loop nd T tmp p it1 s1)))
      else Some (Inr (), s))"

definition InsetAfterListItems_list ::
  "bool \<Rightarrow> 'a Type_ops \<Rightarrow> addr \<Rightarrow> addr \<Rightarrow> 'a state \<Rightarrow> (unit, 'a) outcome option" where
  "InsetAfterListItems_list nd T tmp container s =
     (case list_begin s container of
        Inl e \<Rightarrow> Some (Inl e, s)
      | Inr it \<Rightarrow> InsetAfter_loop nd T tmp (cbefore_begin tmp) it s)"

text \<open>The destructor is \<^verbatim>\<open>Clear()\<close>; the storage of a local object goes with it.\<close>

definition destroy :: "bool \<Rightarrow> addr \<Rightarrow> 'a state \<Rightarrow> (unit, 'a) outcome option" where
  "destroy nd this s =
     (case Clear nd this s of
        None \<Rightarrow> None
      | Some (Inl e, s1) \<Rightarrow> Some (Inl e, s1)
      | Some (Inr u, s1) \<Rightarrow> Some (Inr (), release this s1))"

text \<open>
  An exception leaving a constructor unwinds the stack: the local \<^verbatim>\<open>tmp\<close> is destroyed
  and the exception goes on to the caller. A failed assertion or undefined behaviour
  ends the run where it is.
\<close>

definition unwind :: "bool \<Rightarrow> addr \<Rightarrow> error \<Rightarrow> 'a state \<Rightarrow> (unit, 'a) outcome option" where
  "unwind nd tmp e s =
     (if e = CopyFailed then
        (case destroy nd tmp s of
           None \<Rightarrow> None
         | Some (Inl e1, s1) \<Rightarrow> Some (Inl e1, s1)
         | Some (Inr u, s1) \<Rightarrow> Some (Inl CopyFailed, s1))
      else Some (Inl e, s))"

definition swap_and_leave :: "bool \<Rightarrow> addr \<Rightarrow> addr \<Rightarrow> 'a state \<Rightarrow> (unit, 'a) outcome option" where
  "swap_and_leave nd this tmp s =
     (case swap this tmp s of
        (Inl e, s1) \<Rightarrow> Some (Inl e, s1)
      | (Inr u, s1) \<Rightarrow> destroy nd tmp s1)"

definition SingleLinkedList_init ::
  "bool \<Rightarrow> 'a Type_ops \<Rightarrow> addr \<Rightarrow> 'a list \<Rightarrow> 'a state \<Rightarrow> (unit, 'a) outcome option" where
  "SingleLinkedList_init nd T this vs s =
     (let s0 = init_members (T_uninit T) this s;
          (tmp, s1) = alloc_obj s0;
          s2 = SingleLinkedList_default T tmp s1
      in case InsetAfterListItems_values nd T tmp vs s2 of
           (Inl e, s3) \<Rightarrow> unwind nd tmp e s3
         | (Inr u, s3) \<Rightarrow> swap_and_leave nd this tmp s3)"

definition SingleLinkedList_copy ::
  "bool \<Rightarrow> 'a Type_ops \<Rightarrow> addr \<Rightarrow> addr \<Rightarrow> 'a state \<Rightarrow> (unit, 'a) outcome option" where
  "SingleLinkedList_copy nd T this other s =
     (let s0 = init_members (T_uninit T) this s
      in if \<not> nd \<and> \<not> (size_at s0 this = Some 0 \<and>
                       map_option next_node (node_at s0 this) = Some None)
         then Some (Inl AssertionFailed, s0)
         else
           (let (tmp, s1) = alloc_obj s0;
                s2 = SingleLinkedList_default T tmp s1
            in case InsetAfterListItems_list nd T tmp other s2 of
                 None \<Rightarrow> None
               | Some (Inl e, s3) \<Rightarrow> unwind nd tmp e s3
               | Some (Inr u, s3) \<Rightarrow> swap_and_leave nd this tmp s3))"

text \<open>
  \<^verbatim>\<open>operator=\<close>. The local \<^verbatim>\<open>tmp_othrs\<close> is copy-constructed in fresh storage; when its
  constructor throws, the storage is released and nothing else has happened.
\<close>

definition operator_assign ::
  "bool \<Rightarrow> 'a Type_ops \<Rightarrow> addr \<Rightarrow> addr \<Rightarrow> 'a state \<Rightarrow> (unit, 'a) outcome option" where
  "operator_assign nd T this rhs s =
     (if this = rhs then Some (Inr (), s)
      else
        (let (tmp_othrs, s1) = alloc_obj s
         in case SingleLinkedList_copy nd T tmp_othrs rhs s1 of
              None \<Rightarrow> None
            | Some (Inl e, s2) \<Rightarrow>
                Some (Inl e, if e = CopyFailed then release tmp_othrs s2 else s2)
            | Some (Inr u, s2) \<Rightarrow> swap_and_leave nd this tmp_othrs s2))"

section \<open>Comparison operators\<close>

text \<open>
  \<^verbatim>\<open>std::equal(first1, last1, first2)\<close>, the overload with three iterators that
  \<^verbatim>\<open>operator==\<close> calls: it walks the first range and reads the second one alongside,
  without an end for the second.
\<close>

partial_function (option) std_equal ::
  "'a Type_ops \<Rightarrow> 'a state \<Rightarrow> BasicIterator \<Rightarrow> BasicIterator \<Rightarrow> BasicIterator
     \<Rightarrow> (error + bool) option" where
  "std_equal T s first1 last1 first2 =
     (if iter_ne first1 last1 then
        (case iter_deref s first1 of
           Inl e \<Rightarrow> Some (Inl e)
         | Inr x \<Rightarrow>
             (case iter_deref s first2 of
                Inl e \<Rightarrow> Some (Inl e)
              | Inr y \<Rightarrow>
                  if \<not> T_eq T x y then Some (Inr False)
                  else
                    (case iter_incr s first1 of
                       Inl e \<Rightarrow> Some (Inl e)
                     | Inr f1 \<Rightarrow>
                         (case iter_incr s first2 of
                            Inl e \<Rightarrow> Some (Inl e)
                          | Inr f2 \<Rightarrow> std_equal T s f1 last1 f2))))
      else Some (Inr True))"

text \<open>\<^verbatim>\<open>std::lexicographical_compare(first1, last1, first2, last2)\<close>.\<close>

partial_function (option) std_lexicographical_compare ::
  "'a Type_ops \<Rightarrow> 'a state \<Rightarrow> BasicIterator \<Rightarrow> BasicIterator \<Rightarrow> BasicIterator
     \<Rightarrow> BasicIterator \<Rightarrow> (error + bool) option" where
  "std_lexicographical_compare T s first1 last1 first2 last2 =
     (if iter_ne first1 last1 \<and> iter_ne first2 last2 then
        (case iter_deref s first1 of
           Inl e \<Rightarrow> Some (Inl e)
         | Inr x \<Rightarrow>
             (case iter_deref s first2 of
                Inl e \<Rightarrow> Some (Inl e)
              | Inr y \<Rightarrow>
                  if T_less T x y then Some (Inr True)
                  else if T_less T y x then Some (Inr False)
                  else
                    (case iter_incr s first1 of
                       Inl e \<Rightarrow> Some (Inl e)
                     | Inr f1 \<Rightarrow>
                         (case iter_incr s first2 of
                            Inl e \<Rightarrow> Some (Inl e)
                          | Inr f2 \<Rightarrow>
                              std_lexicographical_compare T s f1 last1 f2 last2))))
      else Some (Inr (iter_eq first1 last1 \<and> iter_ne first2 last2)))"

definition operator_eq ::
  "'a Type_ops \<Rightarrow> 'a state \<Rightarrow> addr \<Rightarrow> addr \<Rightarrow> (error + bool) option" where
  "operator_eq T s lhs rhs =
     (case list_begin s lhs of
        Inl e \<Rightarrow> Some (Inl e)
      | Inr b1 \<Rightarrow>
          (case list_begin s rhs of
             Inl e \<Rightarrow> Some (Inl e)
           | Inr b2 \<Rightarrow> std_equal T s b1 list_end b2))"

definition operator_ne ::
  "'a Type_ops \<Rightarrow> 'a state \<Rightarrow> addr \<Rightarrow> addr \<Rightarrow> (error + bool) option" where
  "operator_ne T s lhs rhs =
     (case operator_eq T s lhs rhs of
        None \<Rightarrow> None
      | Some (Inl e) \<Rightarrow> Some (Inl e)
      | Some (Inr b) \<Rightarrow> Some (Inr (if b then False else True)))"

definition operator_lt ::
  "'a Type_ops \<Rightarrow> 'a state \<Rightarrow> addr \<Rightarrow> addr \<Rightarrow> (error + bool) option" where
  "operator_lt T s lhs rhs =
     (case list_begin s lhs of
        Inl e \<Rightarrow> Some (Inl e)
      | Inr b1 \<Rightarrow>
          (case list_begin s rhs of
             Inl e \<Rightarrow> Some (Inl e)
           | Inr b2 \<Rightarrow> std_lexicographical_compare T s b1 list_end b2 list_end))"

definition operator_le ::
  "'a Type_ops \<Rightarrow> 'a state \<Rightarrow> addr \<Rightarrow> addr \<Rightarrow> (error + bool) option" where
  "operator_le T s lhs rhs =
     (case operator_lt T s rhs lhs of
        None \<Rightarrow> None
      | Some (Inl e) \<Rightarrow> Some (Inl e)
      | Some (Inr b) \<Rightarrow> Some (Inr (if b then False else True)))"

definition operator_gt ::
  "'a Type_ops \<Rightarrow> 'a state \<Rightarrow> addr \<Rightarrow> addr \<Rightarrow> (error + bool) option" where
  "operator_gt T s lhs rhs =
     (case operator_lt T s rhs lhs of
        None \<Rightarrow> None
      | Some (Inl e) \<Rightarrow> Some (Inl e)
      | Some (Inr b) \<Rightarrow> Some (Inr (if b then True else False)))"

definition operator_ge ::
  "'a Type_ops \<Rightarrow> 'a state \<Rightarrow> addr \<Rightarrow> addr \<Rightarrow> (error + bool) option" where
  "operator_ge T s lhs rhs =
     (case operator_gt T s rhs lhs of
        None \<Rightarrow> None
      | Some (Inl e) \<Rightarrow> Some (Inl e)
      | Some (Inr b) \<Rightarrow> Some (Inr (if b then False else True)))"

section \<open>What a list object holds\<close>

text \<open>
  \<open>chain h p cs\<close>: following \<open>next_node\<close> from pointer \<open>p\<close> in the store \<open>h\<close> visits
  exactly the cells \<open>cs\<close>, each an address with the value stored there, and then reaches
  \<^verbatim>\<open>nullptr\<close>. Since \<open>cs\<close> is a finite list, such a chain has no cycle.
\<close>

fun chain :: "(addr \<rightharpoonup> 'a Node) \<Rightarrow> ptr \<Rightarrow> (addr \<times> 'a) list \<Rightarrow> bool" where
  "chain h p [] = (p = None)"
| "chain h p (c # cs) =
     (p = Some (fst c) \<and>
      (case h (fst c) of
         None \<Rightarrow> False
       | Some n \<Rightarrow> val n = snd c \<and> chain h (next_node n) cs))"

text \<open>
  \<open>is_list s this cs\<close>: the list object at \<open>this\<close> is live, the chain after its sentinel
  consists of the cells \<open>cs\<close>, and its \<^verbatim>\<open>size_\<close> is their number. This is the invariant of
  the data model, with the cells named.
\<close>

definition is_list :: "'a state \<Rightarrow> addr \<Rightarrow> (addr \<times> 'a) list \<Rightarrow> bool" where
  "is_list s this cs =
     ((case node_at s this of None \<Rightarrow> False | Some h \<Rightarrow> chain (node_at s) (next_node h) cs)
      \<and> (case size_at s this of None \<Rightarrow> False | Some n \<Rightarrow> unat n = length cs))"

definition invariant :: "'a state \<Rightarrow> addr \<Rightarrow> bool" where
  "invariant s this = (\<exists>cs. is_list s this cs)"

text \<open>The allocator's contract: every live object lies below \<open>next_free\<close>.\<close>

definition heap_ok :: "'a state \<Rightarrow> bool" where
  "heap_ok s = (\<forall>a \<in> dom (node_at s). a < next_free s)"

text \<open>Two lists own disjoint sets of nodes, and neither sentinel is a node of the other.\<close>

definition separate :: "addr \<Rightarrow> (addr \<times> 'a) list \<Rightarrow> addr \<Rightarrow> (addr \<times> 'a) list \<Rightarrow> bool" where
  "separate a ca b cb = (set (a # map fst ca) \<inter> set (b # map fst cb) = {})"

section \<open>Lexicographic order\<close>

text \<open>
  The specification of \<^verbatim>\<open><\<close>: \<open>xs\<close> is lexicographically earlier than \<open>ys\<close> when, for some
  \<open>k\<close>, the first \<open>k\<close> elements of the two are pairwise equivalent (neither is less than
  the other) and then either \<open>xs\<close> ends while \<open>ys\<close> goes on, or the next element of \<open>xs\<close> is
  less than the next element of \<open>ys\<close>.
\<close>

definition lex_earlier :: "('a \<Rightarrow> 'a \<Rightarrow> bool) \<Rightarrow> 'a list \<Rightarrow> 'a list \<Rightarrow> bool" where
  "lex_earlier lt xs ys =
     (\<exists>k \<in> {..min (length xs) (length ys)}.
        (\<forall>j \<in> {..<k}. \<not> lt (xs ! j) (ys ! j) \<and> \<not> lt (ys ! j) (xs ! j)) \<and>
        (k = length xs \<and> k < length ys \<or>
         k < length xs \<and> k < length ys \<and> lt (xs ! k) (ys ! k)))"

text \<open>The same order as a walk along both lists, for comparison with the code.\<close>

fun lex_walk :: "('a \<Rightarrow> 'a \<Rightarrow> bool) \<Rightarrow> 'a list \<Rightarrow> 'a list \<Rightarrow> bool" where
  "lex_walk lt [] [] = False"
| "lex_walk lt [] (y # ys) = True"
| "lex_walk lt (x # xs) [] = False"
| "lex_walk lt (x # xs) (y # ys) = (lt x y \<or> (\<not> lt y x \<and> lex_walk lt xs ys))"

text \<open>The loops are run through their fixpoint equations.\<close>

declare Clear.simps [code]
declare InsetAfter_loop.simps [code]
declare std_equal.simps [code]
declare std_lexicographical_compare.simps [code]

section \<open>Concrete stores\<close>

text \<open>
  \<^verbatim>\<open>int\<close> as the element type, and an element type whose copy of 3 throws. The
  indeterminate value of a default-initialised slot is taken to be 99.
\<close>

definition int_ops :: "int Type_ops" where
  "int_ops = \<lparr>T_default = 0, T_uninit = 99, copy_throws = (\<lambda>x. False), T_eq = (=), T_less = (<)\<rparr>"

definition fragile_ops :: "int Type_ops" where
  "fragile_ops = \<lparr>T_default = 0, T_uninit = 99, copy_throws = (\<lambda>x. x = 3), T_eq = (=), T_less = (<)\<rparr>"

text \<open>The list \<^verbatim>\<open>{1, 2, 3, 4}\<close> at address 0, its nodes at 1 to 4.\<close>

definition list_1234 :: "int state" where
  "list_1234 =
     \<lparr>node_at = [0 \<mapsto> \<lparr>val = 0, next_node = Some 1\<rparr>,
                 1 \<mapsto> \<lparr>val = 1, next_node = Some 2\<rparr>,
                 2 \<mapsto> \<lparr>val = 2, next_node = Some 3\<rparr>,
                 3 \<mapsto> \<lparr>val = 3, next_node = Some 4\<rparr>,
                 4 \<mapsto> \<lparr>val = 4, next_node = None\<rparr>],
      size_at = [0 \<mapsto> 4],
      next_free = 5\<rparr>"

text \<open>The empty list at address 0 and the list \<^verbatim>\<open>{1}\<close> at address 1, its node at 2.\<close>

definition two_lists :: "int state" where
  "two_lists =
     \<lparr>node_at = [0 \<mapsto> \<lparr>val = 0, next_node = None\<rparr>,
                 1 \<mapsto> \<lparr>val = 0, next_node = Some 2\<rparr>,
                 2 \<mapsto> \<lparr>val = 1, next_node = None\<rparr>],
      size_at = [0 \<mapsto> 0, 1 \<mapsto> 1],
      next_free = 3\<rparr>"

text \<open>
  The store of a program that has not constructed anything yet; address 0 is storage
  for its first object.
\<close>

definition empty_store :: "int state" where
  "empty_store = \<lparr>node_at = Map.empty, size_at = Map.empty, next_free = 1\<rparr>"

text \<open>
  The list \<^verbatim>\<open>{1, 2}\<close> at address 0 and the list \<^verbatim>\<open>{1, 3}\<close> at address 1; address 6 is
  storage in which no object has been constructed yet.
\<close>

definition lists_12_13 :: "int state" where
  "lists_12_13 =
     \<lparr>node_at = [0 \<mapsto> \<lparr>val = 0, next_node = Some 2\<rparr>,
                 1 \<mapsto> \<lparr>val = 0, next_node = Some 4\<rparr>,
                 2 \<mapsto> \<lparr>val = 1, next_node = Some 3\<rparr>,
                 3 \<mapsto> \<lparr>val = 2, next_node = None\<rparr>,
                 4 \<mapsto> \<lparr>val = 1, next_node = Some 5\<rparr>,
                 5 \<mapsto> \<lparr>val = 3, next_node = None\<rparr>],
      size_at = [0 \<mapsto> 2, 1 \<mapsto> 2],
      next_free = 7\<rparr>"

section \<open>Chains\<close>

lemma chain_cong:
  "chain h p cs \<Longrightarrow> (\<And>a. a \<in> fst ` set cs \<Longrightarrow> h' a = h a) \<Longrightarrow> chain h' p cs"
proof (induction cs arbitrary: p)
  case Nil
  then show ?case by simp
next
  case (Cons c cs)
  from Cons.prems(1) obtain n where n: "p = Some (fst c)" "h (fst c) = Some n" "val n = snd c"
    "chain h (next_node n) cs"
    by (auto split: option.splits)
  have "h' (fst c) = Some n" using Cons.prems(2)[of "fst c"] n by simp
  moreover have "chain h' (next_node n) cs"
    using Cons.IH[OF n(4)] Cons.prems(2) by simp
  ultimately show ?case using n by simp
qed

lemma chain_unique: "chain h p cs \<Longrightarrow> chain h p cs' \<Longrightarrow> cs = cs'"
proof (induction cs arbitrary: p cs')
  case Nil
  then show ?case by (cases cs') auto
next
  case (Cons c cs)
  then show ?case
    by (cases cs') (auto split: option.splits simp: prod_eq_iff)
qed

lemma chain_dom: "chain h p cs \<Longrightarrow> fst ` set cs \<subseteq> dom h"
  by (induction cs arbitrary: p) (auto split: option.splits)

lemma chain_drop:
  "chain h p cs \<Longrightarrow> i < length cs \<Longrightarrow> chain h (Some (fst (cs ! i))) (drop i cs)"
proof (induction cs arbitrary: p i)
  case Nil
  then show ?case by simp
next
  case (Cons c cs)
  show ?case
  proof (cases i)
    case 0
    then show ?thesis using Cons.prems by simp
  next
    case (Suc j)
    then show ?thesis using Cons by (auto split: option.splits)
  qed
qed

lemma chain_hd_notin:
  assumes "h a = Some n" and "chain h (next_node n) cs"
  shows "a \<notin> fst ` set cs"
proof
  assume "a \<in> fst ` set cs"
  then obtain i where i: "i < length cs" "fst (cs ! i) = a"
    by (auto simp: in_set_conv_nth)
  have "chain h (Some a) (drop i cs)"
    using chain_drop[OF assms(2) i(1)] i(2) by simp
  moreover have "drop i cs = cs ! i # drop (Suc i) cs"
    using i(1) by (simp add: Cons_nth_drop_Suc)
  ultimately have "chain h (next_node n) (drop (Suc i) cs)"
    using assms(1) i(2) by simp
  then have "drop (Suc i) cs = cs"
    using assms(2) chain_unique by blast
  then have "length (drop (Suc i) cs) = length cs" by simp
  then show False using i(1) by simp
qed

lemma chain_distinct: "chain h p cs \<Longrightarrow> distinct (map fst cs)"
proof (induction cs arbitrary: p)
  case Nil
  then show ?case by simp
next
  case (Cons c cs)
  then show ?case
    by (auto split: option.splits dest: chain_hd_notin)
qed

lemma chain_insert_after:
  assumes "chain h p cs" and "i < length cs" and "h (fst (cs ! i)) = Some bn"
    and "a \<notin> fst ` set cs"
  shows "chain (h(a \<mapsto> \<lparr>val = v, next_node = next_node bn\<rparr>,
                  fst (cs ! i) \<mapsto> bn\<lparr>next_node := Some a\<rparr>)) p
           (take (Suc i) cs @ (a, v) # drop (Suc i) cs)"
  using assms
proof (induction cs arbitrary: p i)
  case Nil
  then show ?case by simp
next
  case (Cons c cs)
  from Cons.prems(1) obtain n where n: "p = Some (fst c)" "h (fst c) = Some n" "val n = snd c"
    "chain h (next_node n) cs"
    by (auto split: option.splits)
  have c_notin: "fst c \<notin> fst ` set cs" using chain_hd_notin[OF n(2) n(4)] .
  have a_ne: "a \<noteq> fst c" "a \<notin> fst ` set cs" using Cons.prems(4) by auto
  define H where "H = h(a \<mapsto> \<lparr>val = v, next_node = next_node bn\<rparr>,
                       fst ((c # cs) ! i) \<mapsto> bn\<lparr>next_node := Some a\<rparr>)"
  show ?case
  proof (cases i)
    case 0
    then have bn: "bn = n" using Cons.prems(3) n(2) by simp
    have Hc: "H (fst c) = Some (n\<lparr>next_node := Some a\<rparr>)"
      and Ha: "H a = Some \<lparr>val = v, next_node = next_node n\<rparr>"
      using 0 bn a_ne by (simp_all add: H_def)
    have "chain H (next_node n) cs"
      using c_notin a_ne 0 by (intro chain_cong[OF n(4)]) (auto simp: image_iff H_def)
    then have main: "chain H p (c # (a, v) # cs)"
      using Hc Ha n by simp
    have shape: "take (Suc i) (c # cs) @ (a, v) # drop (Suc i) (c # cs) = c # (a, v) # cs"
      using 0 by simp
    show ?thesis unfolding shape using main unfolding H_def .
  next
    case (Suc j)
    then have j: "j < length cs" "h (fst (cs ! j)) = Some bn" using Cons.prems by auto
    have "cs ! j \<in> set cs" using j(1) by simp
    then have "fst (cs ! j) \<in> fst ` set cs" by (rule imageI)
    have ne: "fst (cs ! j) \<noteq> fst c"
    proof
      assume "fst (cs ! j) = fst c"
      then have "fst c \<in> fst ` set cs" using \<open>fst (cs ! j) \<in> fst ` set cs\<close> by simp
      then show False using c_notin by simp
    qed
    have Hc: "H (fst c) = Some n"
      using Suc ne a_ne n by (simp add: H_def)
    have key: "fst ((c # cs) ! i) = fst (cs ! j)" using Suc by simp
    have "chain H (next_node n) (take (Suc j) cs @ (a, v) # drop (Suc j) cs)"
      using Cons.IH[OF n(4) j a_ne(2)] unfolding H_def key .
    then have main: "chain H p (c # take (Suc j) cs @ (a, v) # drop (Suc j) cs)"
      using Hc n by simp
    have shape: "take (Suc i) (c # cs) @ (a, v) # drop (Suc i) (c # cs)
                     = c # take (Suc j) cs @ (a, v) # drop (Suc j) cs"
      using Suc by simp
    show ?thesis unfolding shape using main unfolding H_def .
  qed
qed

lemma chain_erase_after:
  assumes "chain h p cs" and "Suc i < length cs" and "h (fst (cs ! i)) = Some bn"
    and "h (fst (cs ! Suc i)) = Some dn"
  shows "chain ((h(fst (cs ! Suc i) := None))(fst (cs ! i) \<mapsto> bn\<lparr>next_node := next_node dn\<rparr>)) p
           (take (Suc i) cs @ drop (Suc (Suc i)) cs)"
  using assms
proof (induction cs arbitrary: p i)
  case Nil
  then show ?case by simp
next
  case (Cons c cs)
  from Cons.prems(1) obtain n where n: "p = Some (fst c)" "h (fst c) = Some n" "val n = snd c"
    "chain h (next_node n) cs"
    by (auto split: option.splits)
  have c_notin: "fst c \<notin> fst ` set cs" using chain_hd_notin[OF n(2) n(4)] .
  define H where "H = (h(fst ((c # cs) ! Suc i) := None))
                        (fst ((c # cs) ! i) \<mapsto> bn\<lparr>next_node := next_node dn\<rparr>)"
  show ?case
  proof (cases i)
    case 0
    then have bn: "bn = n" using Cons.prems(3) n(2) by simp
    from Cons.prems(2) 0 obtain d ds where cs: "cs = d # ds" by (cases cs) auto
    with n(4) Cons.prems(4) 0 have d: "next_node n = Some (fst d)" "h (fst d) = Some dn"
      "chain h (next_node dn) ds" by (auto split: option.splits)
    have d_notin: "fst d \<notin> fst ` set ds" using chain_hd_notin[OF d(2) d(3)] .
    have c_notin': "fst c \<notin> fst ` set ds" "fst c \<noteq> fst d" using c_notin cs by auto
    have Hc: "H (fst c) = Some (n\<lparr>next_node := next_node dn\<rparr>)"
      using 0 bn by (simp add: H_def)
    have "chain H (next_node dn) ds"
      using d_notin c_notin' 0 cs by (intro chain_cong[OF d(3)]) (auto simp: image_iff H_def)
    then have main: "chain H p (c # ds)"
      using Hc n by simp
    have shape: "take (Suc i) (c # cs) @ drop (Suc (Suc i)) (c # cs) = c # ds"
      using 0 cs by simp
    show ?thesis unfolding shape using main unfolding H_def .
  next
    case (Suc j)
    then have j: "Suc j < length cs" "h (fst (cs ! j)) = Some bn" "h (fst (cs ! Suc j)) = Some dn"
      using Cons.prems by auto
    have "cs ! j \<in> set cs" "cs ! Suc j \<in> set cs" using j(1) by simp_all
    then have mem: "fst (cs ! j) \<in> fst ` set cs" "fst (cs ! Suc j) \<in> fst ` set cs"
      by blast+
    have ne: "fst (cs ! j) \<noteq> fst c"
    proof
      assume "fst (cs ! j) = fst c"
      then have "fst c \<in> fst ` set cs" using mem(1) by simp
      then show False using c_notin by simp
    qed
    have ne': "fst (cs ! Suc j) \<noteq> fst c"
    proof
      assume "fst (cs ! Suc j) = fst c"
      then have "fst c \<in> fst ` set cs" using mem(2) by simp
      then show False using c_notin by simp
    qed
    have Hc: "H (fst c) = Some n"
      using Suc ne ne' n by (simp add: H_def)
    have key: "fst ((c # cs) ! i) = fst (cs ! j)" "fst ((c # cs) ! Suc i) = fst (cs ! Suc j)"
      using Suc by simp_all
    have "chain H (next_node n) (take (Suc j) cs @ drop (Suc (Suc j)) cs)"
      using Cons.IH[OF n(4) j] unfolding H_def key .
    then have main: "chain H p (c # take (Suc j) cs @ drop (Suc (Suc j)) cs)"
      using Hc n by simp
    have shape: "take (Suc i) (c # cs) @ drop (Suc (Suc i)) (c # cs)
                     = c # take (Suc j) cs @ drop (Suc (Suc j)) cs"
      using Suc by simp
    show ?thesis unfolding shape using main unfolding H_def .
  qed
qed

section \<open>Lists\<close>

lemma is_listI:
  "node_at s L = Some hn \<Longrightarrow> chain (node_at s) (Some L) ((L, x) # cs) \<Longrightarrow>
   size_at s L = Some n \<Longrightarrow> unat n = length cs \<Longrightarrow> is_list s L cs"
  by (simp add: is_list_def)

lemma is_listD:
  assumes "is_list s L cs"
  shows "\<exists>hn n. node_at s L = Some hn \<and> size_at s L = Some n \<and> unat n = length cs \<and>
           chain (node_at s) (next_node hn) cs \<and>
           chain (node_at s) (Some L) ((L, val hn) # cs)"
  using assms by (auto simp: is_list_def split: option.splits)

lemma is_list_cong:
  assumes "is_list s L cs" and "node_at s' L = node_at s L" and "size_at s' L = size_at s L"
    and "\<And>a. a \<in> fst ` set cs \<Longrightarrow> node_at s' a = node_at s a"
  shows "is_list s' L cs"
proof -
  from is_listD[OF assms(1)] obtain hn n where h: "node_at s L = Some hn" "size_at s L = Some n"
    "unat n = length cs" "chain (node_at s) (next_node hn) cs" by blast
  have "chain (node_at s') (next_node hn) cs"
    using chain_cong[OF h(4)] assms(4) by blast
  then show ?thesis using h assms(2,3) by (simp add: is_list_def)
qed

lemma is_list_unique: "is_list s L cs \<Longrightarrow> is_list s L cs' \<Longrightarrow> cs = cs'"
  by (auto simp: is_list_def split: option.splits dest: chain_unique)

lemma is_list_sentinel_notin: "is_list s L cs \<Longrightarrow> L \<notin> fst ` set cs"
  by (auto simp: is_list_def split: option.splits dest: chain_hd_notin)

lemma is_list_dom: "is_list s L cs \<Longrightarrow> insert L (fst ` set cs) \<subseteq> dom (node_at s)"
  using chain_dom by (fastforce simp: is_list_def split: option.splits)

lemma is_list_below:
  "is_list s L cs \<Longrightarrow> heap_ok s \<Longrightarrow> a \<in> insert L (fst ` set cs) \<Longrightarrow> a < next_free s"
  using is_list_dom unfolding heap_ok_def by blast

lemma is_list_length: "is_list s L cs \<Longrightarrow> length cs < 2 ^ 64"
proof -
  assume "is_list s L cs"
  then obtain n :: size_t where "unat n = length cs" using is_listD by blast
  moreover have "unat n < 2 ^ 64" using unsigned_less[of n] by simp
  ultimately show ?thesis by simp
qed

lemma unat_plus_one: "Suc (unat (n :: size_t)) < 2 ^ 64 \<Longrightarrow> unat (n + 1) = Suc (unat n)"
  by (simp add: unat_word_ariths)

lemma unat_minus_one': "unat (n :: size_t) = Suc k \<Longrightarrow> unat (n - 1) = k"
proof -
  assume k: "unat n = Suc k"
  then have "n \<noteq> 0" by auto
  then have "unat (n - 1) = unat n - 1" by (rule unat_minus_one)
  then show ?thesis using k by simp
qed

section \<open>The effect of the member functions on a list\<close>

lemma pos_in_full:
  "i \<le> length cs \<Longrightarrow> (L # map fst cs) ! i = fst (((L, x) # cs) ! i)"
  by (cases i) auto

lemma InsertAfter_ok:
  assumes L: "is_list s L cs" and ok: "heap_ok s" and i: "i \<le> length cs"
    and nt: "\<not> copy_throws T v" and cap: "Suc (length cs) < 2 ^ 64"
  shows "\<exists>s'. InsertAfter nd T L (BasicIterator (Some ((L # map fst cs) ! i))) v s
                 = (Inr (BasicIterator (Some (next_free s))), s') \<and>
              is_list s' L (take i cs @ (next_free s, v) # drop i cs) \<and>
              heap_ok s' \<and> next_free s' = Suc (next_free s) \<and>
              (\<forall>x. x \<noteq> (L # map fst cs) ! i \<and> x \<noteq> next_free s \<longrightarrow> node_at s' x = node_at s x) \<and>
              (\<forall>x. x \<noteq> L \<longrightarrow> size_at s' x = size_at s x)"
proof -
  from is_listD[OF L] obtain hn n where h: "node_at s L = Some hn" "size_at s L = Some n"
    "unat n = length cs" "chain (node_at s) (Some L) ((L, val hn) # cs)" by blast
  define full where "full = (L, val hn) # cs"
  define b where "b = (L # map fst cs) ! i"
  define a where "a = next_free s"
  have b_full: "b = fst (full ! i)" using pos_in_full[OF i] by (simp add: b_def full_def)
  have i': "i < length full" using i by (simp add: full_def)
  have ch: "chain (node_at s) (Some L) full" using h(4) by (simp add: full_def)
  have "full ! i \<in> set full" using i' by simp
  then have "b \<in> fst ` set full" unfolding b_full by blast
  then obtain bn where bn: "node_at s b = Some bn" using chain_dom[OF ch] by blast
  have below: "\<And>x. x \<in> fst ` set full \<Longrightarrow> x < a"
    using chain_dom[OF ch] ok unfolding heap_ok_def a_def by blast
  then have a_notin: "a \<notin> fst ` set full" by blast
  define H where "H = (node_at s)(a \<mapsto> \<lparr>val = v, next_node = next_node bn\<rparr>,
                                   b \<mapsto> bn\<lparr>next_node := Some a\<rparr>)"
  define s' where "s' = s\<lparr>node_at := H, next_free := Suc a, size_at := (size_at s)(L \<mapsto> n + 1)\<rparr>"
  have run: "InsertAfter nd T L (BasicIterator (Some b)) v s = (Inr (BasicIterator (Some a)), s')"
    using bn h(2) nt by (simp add: InsertAfter_def new_Node_def s'_def H_def a_def)
  have "chain H (Some L) (take (Suc i) full @ (a, v) # drop (Suc i) full)"
    using chain_insert_after[OF ch i' _ a_notin, of bn v] bn unfolding H_def b_full by simp
  moreover have "take (Suc i) full @ (a, v) # drop (Suc i) full
                   = (L, val hn) # (take i cs @ (a, v) # drop i cs)"
    by (simp add: full_def)
  ultimately have ch': "chain (node_at s') (Some L) ((L, val hn) # (take i cs @ (a, v) # drop i cs))"
    by (simp add: s'_def)
  have "L \<in> fst ` set full" by (simp add: full_def)
  then have "L \<noteq> a" using a_notin by blast
  then have "node_at s' L \<noteq> None"
    using h(1) by (simp add: s'_def H_def)
  then obtain hn' where hn': "node_at s' L = Some hn'" by blast
  have sz: "size_at s' L = Some (n + 1)" by (simp add: s'_def)
  have "unat (n + 1) = Suc (length cs)" using unat_plus_one[of n] h(3) cap by simp
  then have len: "unat (n + 1) = length (take i cs @ (a, v) # drop i cs)" using i by simp
  have list': "is_list s' L (take i cs @ (a, v) # drop i cs)"
    using is_listI[OF hn' ch' sz len] .
  have "b < a" using below \<open>b \<in> fst ` set full\<close> by blast
  then have ok': "heap_ok s'"
    using ok by (fastforce simp: heap_ok_def s'_def H_def a_def less_Suc_eq split: if_splits)
  have frame: "\<forall>x. x \<noteq> b \<and> x \<noteq> a \<longrightarrow> node_at s' x = node_at s x"
    by (simp add: s'_def H_def)
  have frame2: "\<forall>x. x \<noteq> L \<longrightarrow> size_at s' x = size_at s x"
    by (simp add: s'_def)
  have nf: "next_free s' = Suc a" by (simp add: s'_def)
  show ?thesis
    using run list' ok' nf frame frame2 unfolding a_def b_def by blast
qed

lemma EraseAfter_ok:
  assumes L: "is_list s L cs" and i: "i < length cs"
  shows "\<exists>s'. EraseAfter nd L (BasicIterator (Some ((L # map fst cs) ! i))) s
                 = (Inr (BasicIterator (if Suc i < length cs then Some (fst (cs ! Suc i)) else None)), s') \<and>
              is_list s' L (take i cs @ drop (Suc i) cs) \<and>
              next_free s' = next_free s \<and>
              dom (node_at s') = dom (node_at s) - {fst (cs ! i)} \<and>
              (\<forall>x. x \<noteq> (L # map fst cs) ! i \<and> x \<noteq> fst (cs ! i) \<longrightarrow> node_at s' x = node_at s x) \<and>
              (\<forall>x. x \<noteq> L \<longrightarrow> size_at s' x = size_at s x) \<and>
              (\<exists>n. size_at s L = Some n \<and> size_at s' L = Some (n - 1))"
proof -
  from is_listD[OF L] obtain hn n where h: "node_at s L = Some hn" "size_at s L = Some n"
    "unat n = length cs" "chain (node_at s) (Some L) ((L, val hn) # cs)" by blast
  define full where "full = (L, val hn) # cs"
  define b where "b = (L # map fst cs) ! i"
  define d where "d = fst (cs ! i)"
  have b_full: "b = fst (full ! i)" using pos_in_full[of i cs L] i by (simp add: b_def full_def)
  have d_full: "d = fst (full ! Suc i)" by (simp add: d_def full_def)
  have i': "Suc i < length full" using i by (simp add: full_def)
  have ch: "chain (node_at s) (Some L) full" using h(4) by (simp add: full_def)
  have "full ! i \<in> set full" "full ! Suc i \<in> set full"
    using i' by simp_all
  then have mem: "b \<in> fst ` set full" "d \<in> fst ` set full"
    unfolding b_full d_full by blast+
  then obtain bn dn where bn: "node_at s b = Some bn" and dn: "node_at s d = Some dn"
    using chain_dom[OF ch] by blast
  have "chain (node_at s) (Some b) (drop i full)"
    using chain_drop[OF ch, of i] i' b_full by simp
  moreover have "drop i full = full ! i # full ! Suc i # drop (Suc (Suc i)) full"
    using i' by (simp add: Cons_nth_drop_Suc Suc_lessD)
  ultimately have link: "next_node bn = Some d" and
    rest: "chain (node_at s) (next_node dn) (drop (Suc (Suc i)) full)"
    using bn dn b_full d_full by auto
  have nxt: "next_node dn = (if Suc i < length cs then Some (fst (cs ! Suc i)) else None)"
  proof (cases "Suc i < length cs")
    case True
    then have "drop (Suc (Suc i)) full = cs ! Suc i # drop (Suc (Suc i)) cs"
      by (simp add: full_def Cons_nth_drop_Suc)
    then show ?thesis using rest True by simp
  next
    case False
    then have "drop (Suc (Suc i)) full = []" by (simp add: full_def)
    then show ?thesis using rest False by simp
  qed
  define H where "H = ((node_at s)(d := None))(b \<mapsto> bn\<lparr>next_node := next_node dn\<rparr>)"
  define s' where "s' = s\<lparr>node_at := H, size_at := (size_at s)(L \<mapsto> n - 1)\<rparr>"
  have run: "EraseAfter nd L (BasicIterator (Some b)) s = (Inr (BasicIterator (next_node dn)), s')"
    using bn dn link h(2) by (simp add: EraseAfter_def s'_def H_def)
  have "chain H (Some L) (take (Suc i) full @ drop (Suc (Suc i)) full)"
    using chain_erase_after[OF ch i', of bn dn] bn dn unfolding H_def b_full d_full by simp
  moreover have "take (Suc i) full @ drop (Suc (Suc i)) full
                   = (L, val hn) # (take i cs @ drop (Suc i) cs)"
    by (simp add: full_def)
  ultimately have ch': "chain (node_at s') (Some L) ((L, val hn) # (take i cs @ drop (Suc i) cs))"
    by (simp add: s'_def)
  have dist: "distinct (map fst full)" using chain_distinct[OF ch] .
  have "cs ! i \<in> set cs" using i by simp
  then have "d \<in> fst ` set cs" unfolding d_def by blast
  then have "L \<noteq> d" using dist by (auto simp: full_def)
  have "(map fst full ! i = map fst full ! Suc i) = (i = Suc i)"
    using dist i' by (intro nth_eq_iff_index_eq) simp_all
  then have bd: "b \<noteq> d"
    using i' by (simp add: b_full d_full)
  have "node_at s' L \<noteq> None"
    using h(1) \<open>L \<noteq> d\<close> by (simp add: s'_def H_def)
  then obtain hn' where hn': "node_at s' L = Some hn'" by blast
  have sz: "size_at s' L = Some (n - 1)" by (simp add: s'_def)
  obtain k where k: "length cs = Suc k" using i by (cases cs) auto
  then have "unat (n - 1) = k" using unat_minus_one'[of n k] h(3) by simp
  then have len: "unat (n - 1) = length (take i cs @ drop (Suc i) cs)" using i k by simp
  have list': "is_list s' L (take i cs @ drop (Suc i) cs)"
    using is_listI[OF hn' ch' sz len] .
  have dm: "dom (node_at s') = dom (node_at s) - {d}"
    using bn bd by (auto simp: s'_def H_def split: if_splits)
  have frame: "\<forall>x. x \<noteq> b \<and> x \<noteq> d \<longrightarrow> node_at s' x = node_at s x"
    by (simp add: s'_def H_def)
  have frame2: "\<forall>x. x \<noteq> L \<longrightarrow> size_at s' x = size_at s x"
    by (simp add: s'_def)
  have nf: "next_free s' = next_free s" by (simp add: s'_def)
  have szs: "\<exists>n. size_at s L = Some n \<and> size_at s' L = Some (n - 1)" using h(2) sz by simp
  show ?thesis
    using run list' nf dm frame frame2 szs unfolding nxt b_def d_def by blast
qed

lemma PushFront_as_InsertAfter:
  "PushFront T L v s =
     (case InsertAfter nd T L (before_begin L) v s of (r, s') \<Rightarrow> (map_sum id (\<lambda>_. ()) r, s'))"
  by (simp add: PushFront_def InsertAfter_def before_begin_def Let_def
           split: option.splits prod.splits sum.splits)

lemma PopFront_as_EraseAfter:
  assumes "size_at s L = Some n" and "n \<noteq> 0" and "node_at s L = Some hn"
    and "next_node hn \<noteq> None"
  shows "PopFront nd L s =
     (case EraseAfter nd L (before_begin L) s of (r, s') \<Rightarrow> (map_sum id (\<lambda>_. ()) r, s'))"
  using assms
  by (auto simp: PopFront_def EraseAfter_def before_begin_def Let_def
           split: option.splits)

lemma PushFront_ok:
  assumes L: "is_list s L cs" and ok: "heap_ok s"
    and nt: "\<not> copy_throws T v" and cap: "Suc (length cs) < 2 ^ 64"
  shows "\<exists>s'. PushFront T L v s = (Inr (), s') \<and>
              is_list s' L ((next_free s, v) # cs) \<and>
              heap_ok s' \<and> next_free s' = Suc (next_free s) \<and>
              (\<forall>x. x \<noteq> L \<and> x \<noteq> next_free s \<longrightarrow> node_at s' x = node_at s x) \<and>
              (\<forall>x. x \<noteq> L \<longrightarrow> size_at s' x = size_at s x)"
proof -
  from InsertAfter_ok[OF L ok _ nt cap, of 0 True] obtain s' where
    s': "InsertAfter True T L (before_begin L) v s = (Inr (BasicIterator (Some (next_free s))), s')"
        "is_list s' L ((next_free s, v) # cs)" "heap_ok s'" "next_free s' = Suc (next_free s)"
        "\<forall>x. x \<noteq> L \<and> x \<noteq> next_free s \<longrightarrow> node_at s' x = node_at s x"
        "\<forall>x. x \<noteq> L \<longrightarrow> size_at s' x = size_at s x"
    by (auto simp: before_begin_def)
  have "PushFront T L v s = (Inr (), s')"
    using PushFront_as_InsertAfter[of T L v s True] s'(1) by simp
  then show ?thesis using s' by blast
qed

lemma PopFront_ok:
  assumes L: "is_list s L (c # cs)"
  shows "\<exists>s'. PopFront nd L s = (Inr (), s') \<and>
              is_list s' L cs \<and> next_free s' = next_free s \<and>
              dom (node_at s') = dom (node_at s) - {fst c} \<and>
              (\<forall>x. x \<noteq> L \<and> x \<noteq> fst c \<longrightarrow> node_at s' x = node_at s x) \<and>
              (\<forall>x. x \<noteq> L \<longrightarrow> size_at s' x = size_at s x)"
proof -
  from is_listD[OF L] obtain hn n where h: "node_at s L = Some hn" "size_at s L = Some n"
    "unat n = length (c # cs)" "chain (node_at s) (next_node hn) (c # cs)" by blast
  have n0: "n \<noteq> 0" using h(3) by auto
  have nx: "next_node hn \<noteq> None" using h(4) by simp
  from EraseAfter_ok[OF L, of 0 nd] obtain s' where
    s': "EraseAfter nd L (before_begin L) s
           = (Inr (BasicIterator (if Suc 0 < length (c # cs) then Some (fst ((c # cs) ! Suc 0)) else None)), s')"
        "is_list s' L cs" "next_free s' = next_free s"
        "dom (node_at s') = dom (node_at s) - {fst c}"
        "\<forall>x. x \<noteq> L \<and> x \<noteq> fst c \<longrightarrow> node_at s' x = node_at s x"
        "\<forall>x. x \<noteq> L \<longrightarrow> size_at s' x = size_at s x"
    by (auto simp: before_begin_def)
  have "PopFront nd L s = (Inr (), s')"
    using PopFront_as_EraseAfter[OF h(2) n0 h(1) nx, of nd] s'(1) by simp
  then show ?thesis using s' by blast
qed

lemma Clear_ok:
  assumes "is_list s L cs"
  shows "\<exists>s'. Clear nd L s = Some (Inr (), s') \<and> is_list s' L [] \<and>
              next_free s' = next_free s \<and>
              dom (node_at s') = dom (node_at s) - fst ` set cs \<and>
              (\<forall>x. x \<noteq> L \<and> x \<notin> fst ` set cs \<longrightarrow> node_at s' x = node_at s x) \<and>
              (\<forall>x. x \<noteq> L \<longrightarrow> size_at s' x = size_at s x)"
  using assms
proof (induction cs arbitrary: s)
  case Nil
  then have "\<exists>hn. node_at s L = Some hn \<and> next_node hn = None"
    by (auto simp: is_list_def split: option.splits)
  then have "Clear nd L s = Some (Inr (), s)"
    by (subst Clear.simps) auto
  then show ?case using Nil by simp
next
  case (Cons c cs)
  from is_listD[OF Cons.prems] obtain hn where hn: "node_at s L = Some hn"
    "next_node hn \<noteq> None" by auto
  from PopFront_ok[OF Cons.prems, of nd] obtain s1 where
    s1: "PopFront nd L s = (Inr (), s1)" "is_list s1 L cs" "next_free s1 = next_free s"
        "dom (node_at s1) = dom (node_at s) - {fst c}"
        "\<forall>x. x \<noteq> L \<and> x \<noteq> fst c \<longrightarrow> node_at s1 x = node_at s x"
        "\<forall>x. x \<noteq> L \<longrightarrow> size_at s1 x = size_at s x"
    by blast
  from Cons.IH[OF s1(2)] obtain s' where
    s': "Clear nd L s1 = Some (Inr (), s')" "is_list s' L []" "next_free s' = next_free s1"
        "dom (node_at s') = dom (node_at s1) - fst ` set cs"
        "\<forall>x. x \<noteq> L \<and> x \<notin> fst ` set cs \<longrightarrow> node_at s' x = node_at s1 x"
        "\<forall>x. x \<noteq> L \<longrightarrow> size_at s' x = size_at s1 x"
    by blast
  have "Clear nd L s = Some (Inr (), s')"
    using hn s1(1) s'(1) by (subst Clear.simps) auto
  moreover have "dom (node_at s') = dom (node_at s) - fst ` set (c # cs)"
    using s1(4) s'(4) by auto
  moreover have "\<forall>x. x \<noteq> L \<and> x \<notin> fst ` set (c # cs) \<longrightarrow> node_at s' x = node_at s x"
    using s1(5) s'(5) by auto
  moreover have "\<forall>x. x \<noteq> L \<longrightarrow> size_at s' x = size_at s x"
    using s1(6) s'(6) by auto
  ultimately show ?case using s'(2,3) s1(3) by auto
qed

lemma swap_ok:
  assumes A: "is_list s A ca" and B: "is_list s B cb"
    and AB: "A \<notin> fst ` set cb" and BA: "B \<notin> fst ` set ca"
  shows "\<exists>s'. swap A B s = (Inr (), s') \<and> is_list s' A cb \<and> is_list s' B ca \<and>
              next_free s' = next_free s \<and> dom (node_at s') = dom (node_at s) \<and>
              (\<forall>x. x \<noteq> A \<and> x \<noteq> B \<longrightarrow> node_at s' x = node_at s x \<and> size_at s' x = size_at s x)"
proof -
  from is_listD[OF A] obtain ha na where a: "node_at s A = Some ha" "size_at s A = Some na"
    "unat na = length ca" "chain (node_at s) (next_node ha) ca" by blast
  from is_listD[OF B] obtain hb nb where b: "node_at s B = Some hb" "size_at s B = Some nb"
    "unat nb = length cb" "chain (node_at s) (next_node hb) cb" by blast
  define H where "H = (node_at s)(A \<mapsto> ha\<lparr>next_node := next_node hb\<rparr>,
                                   B \<mapsto> hb\<lparr>next_node := next_node ha\<rparr>)"
  define s' where "s' = s\<lparr>node_at := H, size_at := (size_at s)(A \<mapsto> nb, B \<mapsto> na)\<rparr>"
  have run: "swap A B s = (Inr (), s')"
    using a b by (simp add: swap_def s'_def H_def)
  have An: "A \<notin> fst ` set ca" "B \<notin> fst ` set cb"
    using is_list_sentinel_notin A B by blast+
  have ca': "chain H (next_node ha) ca"
    using An BA by (intro chain_cong[OF a(4)]) (auto simp: H_def)
  have cb': "chain H (next_node hb) cb"
    using An AB by (intro chain_cong[OF b(4)]) (auto simp: H_def)
  have "is_list s' A cb"
  proof (cases "A = B")
    case True
    then show ?thesis using a b ca' cb' by (simp add: is_list_def s'_def H_def)
  next
    case False
    then show ?thesis using a b cb' by (simp add: is_list_def s'_def H_def)
  qed
  moreover have "is_list s' B ca"
    using a b ca' by (simp add: is_list_def s'_def H_def)
  moreover have "dom (node_at s') = dom (node_at s)"
    using a b by (auto simp: s'_def H_def)
  moreover have "\<forall>x. x \<noteq> A \<and> x \<noteq> B \<longrightarrow> node_at s' x = node_at s x \<and> size_at s' x = size_at s x"
    by (simp add: s'_def H_def)
  moreover have "next_free s' = next_free s" by (simp add: s'_def)
  ultimately show ?thesis using run by blast
qed

section \<open>Filling a list, constructors and assignment\<close>

lemma InsertAfter_success:
  assumes "InsertAfter nd T tmp (BasicIterator (Some b)) v s = (Inr it, s1)"
  shows "it = BasicIterator (Some (next_free s)) \<and> next_free s1 = Suc (next_free s) \<and>
         (\<forall>x. x \<noteq> b \<and> x \<noteq> next_free s \<longrightarrow> node_at s1 x = node_at s x) \<and>
         (\<forall>x. x \<noteq> tmp \<longrightarrow> size_at s1 x = size_at s x)"
  using assms
  by (auto simp: InsertAfter_def new_Node_def Let_def split: option.splits if_splits)

lemma pos_is_live:
  assumes "is_list s L cs" and "i \<le> length cs"
  shows "\<exists>bn. node_at s ((L # map fst cs) ! i) = Some bn"
proof -
  from is_listD[OF assms(1)] obtain hn where hn: "node_at s L = Some hn" and
    ch: "chain (node_at s) (Some L) ((L, val hn) # cs)" by blast
  have "(L # map fst cs) ! i = fst (((L, val hn) # cs) ! i)"
    using pos_in_full[OF assms(2)] .
  moreover have "((L, val hn) # cs) ! i \<in> set ((L, val hn) # cs)"
    using assms(2) by (intro nth_mem) simp
  ultimately have "(L # map fst cs) ! i \<in> fst ` set ((L, val hn) # cs)"
    by (simp only: image_eqI)
  then show ?thesis using chain_dom[OF ch] by blast
qed

lemma InsertAfter_throws:
  assumes "is_list s L cs" and "i \<le> length cs" and "copy_throws T v"
  shows "InsertAfter nd T L (BasicIterator (Some ((L # map fst cs) ! i))) v s = (Inl CopyFailed, s)"
  using pos_is_live[OF assms(1,2)] assms(3) by (auto simp: InsertAfter_def new_Node_def)

lemma InsetAfter_loop_is_values:
  assumes "chain (node_at s) p rest" and "b \<notin> fst ` set rest"
    and "\<And>a. a \<in> fst ` set rest \<Longrightarrow> a < next_free s"
  shows "InsetAfter_loop nd T tmp (BasicIterator (Some b)) (BasicIterator p) s
           = Some (InsetAfter_values nd T tmp (BasicIterator (Some b)) (map snd rest) s)"
  using assms
proof (induction rest arbitrary: s p b)
  case Nil
  then show ?case
    by (subst InsetAfter_loop.simps) (simp add: iter_ne_def list_end_def)
next
  case (Cons c rest)
  from Cons.prems(1) obtain n where n: "p = Some (fst c)" "node_at s (fst c) = Some n"
    "val n = snd c" "chain (node_at s) (next_node n) rest"
    by (auto split: option.splits)
  have deref: "iter_deref s (BasicIterator p) = Inr (snd c)"
    using n by (simp add: iter_deref_def)
  have not_end: "iter_ne (BasicIterator p) list_end"
    using n by (simp add: iter_ne_def list_end_def)
  obtain r s1 where ins: "InsertAfter nd T tmp (BasicIterator (Some b)) (snd c) s = (r, s1)"
    by (cases "InsertAfter nd T tmp (BasicIterator (Some b)) (snd c) s") auto
  show ?case
  proof (cases r)
    case (Inl e)
    then show ?thesis
      using ins deref not_end by (subst InsetAfter_loop.simps) simp
  next
    case (Inr it)
    from InsertAfter_success[OF ins[unfolded Inr]] have
      s1: "it = BasicIterator (Some (next_free s))" "next_free s1 = Suc (next_free s)"
          "\<forall>x. x \<noteq> b \<and> x \<noteq> next_free s \<longrightarrow> node_at s1 x = node_at s x"
      by auto
    have c_lt: "fst c < next_free s" using Cons.prems(3) by simp
    have c_ne: "fst c \<noteq> b" using Cons.prems(2) by auto
    have "node_at s1 (fst c) = Some n" using s1(3) c_lt c_ne n(2) by simp
    then have incr: "iter_incr s1 (BasicIterator p) = Inr (BasicIterator (next_node n))"
      using n(1) by (simp add: iter_incr_def)
    have ch1: "chain (node_at s1) (next_node n) rest"
    proof (rule chain_cong[OF n(4)])
      fix a assume a: "a \<in> fst ` set rest"
      then have "a < next_free s" "a \<noteq> b" using Cons.prems(2,3) by auto
      then show "node_at s1 a = node_at s a" using s1(3) by simp
    qed
    have fresh: "next_free s \<notin> fst ` set rest"
      using Cons.prems(3) by fastforce
    have below: "\<And>a. a \<in> fst ` set rest \<Longrightarrow> a < next_free s1"
      using Cons.prems(3) s1(2) by fastforce
    have IH: "InsetAfter_loop nd T tmp (BasicIterator (Some (next_free s)))
                (BasicIterator (next_node n)) s1
              = Some (InsetAfter_values nd T tmp (BasicIterator (Some (next_free s)))
                        (map snd rest) s1)"
      using Cons.IH[OF ch1 fresh below] .
    show ?thesis
      using ins Inr deref not_end incr IH s1(1)
      by (subst InsetAfter_loop.simps) simp
  qed
qed

lemma last_pos: "last (L # map fst ct) = (L # map fst ct) ! length ct"
  by (simp add: last_conv_nth)

lemma InsetAfter_values_ok:
  assumes "is_list s tmp ct" and "heap_ok s" and "length ct + length vs < 2 ^ 64"
  shows "\<exists>s' new. InsetAfter_values nd T tmp (BasicIterator (Some (last (tmp # map fst ct)))) vs s
                    = ((if \<forall>v \<in> set vs. \<not> copy_throws T v then Inr () else Inl CopyFailed), s') \<and>
           is_list s' tmp (ct @ new) \<and>
           map snd new = takeWhile (\<lambda>v. \<not> copy_throws T v) vs \<and>
           heap_ok s' \<and> next_free s \<le> next_free s' \<and>
           (\<forall>a \<in> fst ` set new. next_free s \<le> a) \<and>
           (\<forall>x. x < next_free s \<and> x \<noteq> last (tmp # map fst ct) \<longrightarrow> node_at s' x = node_at s x) \<and>
           (\<forall>x. x \<noteq> tmp \<longrightarrow> size_at s' x = size_at s x)"
  using assms
proof (induction vs arbitrary: s ct)
  case Nil
  have "is_list s tmp (ct @ [])" using Nil.prems(1) by simp
  then show ?case using Nil.prems(2) by (intro exI[of _ s] exI[of _ "[]"]) simp
next
  case (Cons v vs)
  define b where "b = last (tmp # map fst ct)"
  have b_nth: "b = (tmp # map fst ct) ! length ct" unfolding b_def by (rule last_pos)
  show ?case
  proof (cases "copy_throws T v")
    case True
    from InsertAfter_throws[OF Cons.prems(1) _ True, of "length ct" nd]
    have "InsertAfter nd T tmp (BasicIterator (Some b)) v s = (Inl CopyFailed, s)"
      unfolding b_nth by simp
    then have "InsetAfter_values nd T tmp (BasicIterator (Some b)) (v # vs) s = (Inl CopyFailed, s)"
      by simp
    moreover have "is_list s tmp (ct @ [])" using Cons.prems(1) by simp
    ultimately show ?thesis
      unfolding b_def[symmetric] using True Cons.prems(2)
      by (intro exI[of _ s] exI[of _ "[]"]) simp
  next
    case False
    have cap: "Suc (length ct) < 2 ^ 64" using Cons.prems(3) by simp
    from InsertAfter_ok[OF Cons.prems(1,2) _ False cap, of "length ct" nd]
    obtain s1 where
      s1: "InsertAfter nd T tmp (BasicIterator (Some b)) v s
             = (Inr (BasicIterator (Some (next_free s))), s1)"
          "is_list s1 tmp (ct @ [(next_free s, v)])" "heap_ok s1"
          "next_free s1 = Suc (next_free s)"
          "\<forall>x. x \<noteq> b \<and> x \<noteq> next_free s \<longrightarrow> node_at s1 x = node_at s x"
          "\<forall>x. x \<noteq> tmp \<longrightarrow> size_at s1 x = size_at s x"
      unfolding b_nth by auto
    have len: "length (ct @ [(next_free s, v)]) + length vs < 2 ^ 64"
      using Cons.prems(3) by simp
    have lst: "last (tmp # map fst (ct @ [(next_free s, v)])) = next_free s" by simp
    from Cons.IH[OF s1(2,3) len] obtain s' new where
      s': "InsetAfter_values nd T tmp (BasicIterator (Some (next_free s))) vs s1
             = ((if \<forall>v \<in> set vs. \<not> copy_throws T v then Inr () else Inl CopyFailed), s')"
          "is_list s' tmp ((ct @ [(next_free s, v)]) @ new)"
          "map snd new = takeWhile (\<lambda>v. \<not> copy_throws T v) vs"
          "heap_ok s'" "next_free s1 \<le> next_free s'"
          "\<forall>a \<in> fst ` set new. next_free s1 \<le> a"
          "\<forall>x. x < next_free s1 \<and> x \<noteq> next_free s \<longrightarrow> node_at s' x = node_at s1 x"
          "\<forall>x. x \<noteq> tmp \<longrightarrow> size_at s' x = size_at s1 x"
      unfolding lst by blast
    have run: "InsetAfter_values nd T tmp (BasicIterator (Some b)) (v # vs) s
                 = ((if \<forall>v \<in> set (v # vs). \<not> copy_throws T v then Inr () else Inl CopyFailed), s')"
      using s1(1) s'(1) False by simp
    have l': "is_list s' tmp (ct @ ((next_free s, v) # new))" using s'(2) by simp
    have m': "map snd ((next_free s, v) # new) = takeWhile (\<lambda>v. \<not> copy_throws T v) (v # vs)"
      using s'(3) False by simp
    have nf: "next_free s \<le> next_free s'" using s1(4) s'(5) by simp
    have ad: "\<forall>a \<in> fst ` set ((next_free s, v) # new). next_free s \<le> a"
      using s'(6) s1(4) by auto
    have fr: "\<forall>x. x < next_free s \<and> x \<noteq> b \<longrightarrow> node_at s' x = node_at s x"
      using s1(4,5) s'(7) by auto
    have fr2: "\<forall>x. x \<noteq> tmp \<longrightarrow> size_at s' x = size_at s x"
      using s1(6) s'(8) by auto
    show ?thesis
      unfolding b_def[symmetric]
      using run l' m' s'(4) nf ad fr fr2
      by (intro exI[of _ s'] exI[of _ "(next_free s, v) # new"]) blast
  qed
qed

lemma destroy_ok:
  assumes "is_list s L cs"
  shows "\<exists>s'. destroy nd L s = Some (Inr (), s') \<and>
              next_free s' = next_free s \<and>
              dom (node_at s') = dom (node_at s) - fst ` set cs - {L} \<and>
              (\<forall>x. x \<noteq> L \<and> x \<notin> fst ` set cs \<longrightarrow> node_at s' x = node_at s x) \<and>
              (\<forall>x. x \<noteq> L \<longrightarrow> size_at s' x = size_at s x)"
proof -
  from Clear_ok[OF assms, of nd] obtain s1 where
    s1: "Clear nd L s = Some (Inr (), s1)" "next_free s1 = next_free s"
        "dom (node_at s1) = dom (node_at s) - fst ` set cs"
        "\<forall>x. x \<noteq> L \<and> x \<notin> fst ` set cs \<longrightarrow> node_at s1 x = node_at s x"
        "\<forall>x. x \<noteq> L \<longrightarrow> size_at s1 x = size_at s x"
    by blast
  have "destroy nd L s = Some (Inr (), release L s1)"
    using s1(1) by (simp add: destroy_def)
  moreover have "dom (node_at (release L s1)) = dom (node_at s) - fst ` set cs - {L}"
    using s1(3) by (auto simp: release_def)
  ultimately show ?thesis
    using s1(2,4,5) by (intro exI[of _ "release L s1"]) (simp add: release_def)
qed

lemma is_list_empty_init:
  "is_list (init_members v L s) L []"
  by (simp add: is_list_def init_members_def)

lemma build_and_swap:
  assumes this0: "is_list s this []" and tmp0: "is_list s tmp []" and ne: "this \<noteq> tmp"
    and ok: "heap_ok s" and len: "length vs < 2 ^ 64"
    and run: "InsetAfterListItems_values nd T tmp vs s = (r, s3)"
  shows "\<exists>s' cs'. (case r of Inl e \<Rightarrow> unwind nd tmp e s3
                              | Inr u \<Rightarrow> swap_and_leave nd this tmp s3)
                    = Some ((if \<forall>v \<in> set vs. \<not> copy_throws T v then Inr () else Inl CopyFailed), s') \<and>
           is_list s' this cs' \<and>
           map snd cs' = (if \<forall>v \<in> set vs. \<not> copy_throws T v then vs else []) \<and>
           heap_ok s' \<and> next_free s \<le> next_free s' \<and>
           (\<forall>a \<in> fst ` set cs'. next_free s \<le> a) \<and>
           node_at s' tmp = None \<and>
           (\<forall>x. x < next_free s \<and> x \<noteq> this \<and> x \<noteq> tmp \<longrightarrow> node_at s' x = node_at s x) \<and>
           (\<forall>x. x \<noteq> this \<and> x \<noteq> tmp \<longrightarrow> size_at s' x = size_at s x)"
proof -
  have len': "length ([] :: (addr \<times> 'a) list) + length vs < 2 ^ 64" using len by simp
  have start: "InsetAfterListItems_values nd T tmp vs s
                 = InsetAfter_values nd T tmp (BasicIterator (Some (last (tmp # map fst ([] :: (addr \<times> 'a) list))))) vs s"
    by (simp add: InsetAfterListItems_values_def cbefore_begin_def)
  from InsetAfter_values_ok[OF tmp0 ok len', of nd T] obtain s3' new where
    s3': "InsetAfter_values nd T tmp (BasicIterator (Some (last (tmp # map fst ([] :: (addr \<times> 'a) list))))) vs s
            = ((if \<forall>v \<in> set vs. \<not> copy_throws T v then Inr () else Inl CopyFailed), s3')"
        "is_list s3' tmp ([] @ new)"
        "map snd new = takeWhile (\<lambda>v. \<not> copy_throws T v) vs"
        "heap_ok s3'" "next_free s \<le> next_free s3'"
        "\<forall>a \<in> fst ` set new. next_free s \<le> a"
        "\<forall>x. x < next_free s \<and> x \<noteq> last (tmp # map fst ([] :: (addr \<times> 'a) list)) \<longrightarrow> node_at s3' x = node_at s x"
        "\<forall>x. x \<noteq> tmp \<longrightarrow> size_at s3' x = size_at s x"
    by blast
  have eq3: "s3' = s3" and r_eq: "r = (if \<forall>v \<in> set vs. \<not> copy_throws T v then Inr () else Inl CopyFailed)"
    using run start s3'(1) by simp_all
  have s3: "r = (if \<forall>v \<in> set vs. \<not> copy_throws T v then Inr () else Inl CopyFailed)"
        "is_list s3 tmp new"
        "map snd new = takeWhile (\<lambda>v. \<not> copy_throws T v) vs"
        "heap_ok s3" "next_free s \<le> next_free s3"
        "\<forall>a \<in> fst ` set new. next_free s \<le> a"
        "\<forall>x. x < next_free s \<and> x \<noteq> tmp \<longrightarrow> node_at s3 x = node_at s x"
        "\<forall>x. x \<noteq> tmp \<longrightarrow> size_at s3 x = size_at s x"
    using s3' r_eq unfolding eq3 by simp_all
  have this_lt: "this < next_free s" using is_list_below[OF this0 ok] by simp
  have tmp_lt: "tmp < next_free s" using is_list_below[OF tmp0 ok] by simp
  have this3: "is_list s3 this []"
    using this0 s3(7,8) this_lt ne by (intro is_list_cong[OF this0]) auto
  have this_new: "this \<notin> fst ` set new" using s3(6) this_lt by fastforce
  have tmp_new: "tmp \<notin> fst ` set new" using s3(6) tmp_lt by fastforce
  show ?thesis
  proof (cases "\<forall>v \<in> set vs. \<not> copy_throws T v")
    case True
    then have r: "r = Inr ()" using s3(1) by simp
    have vals: "map snd new = vs" using s3(3) True by simp
    have tmp_nil: "tmp \<notin> fst ` set ([] :: (addr \<times> 'a) list)" by simp
    from swap_ok[OF this3 s3(2) this_new tmp_nil] obtain s4 where
      s4: "swap this tmp s3 = (Inr (), s4)" "is_list s4 this new" "is_list s4 tmp []"
          "next_free s4 = next_free s3" "dom (node_at s4) = dom (node_at s3)"
          "\<forall>x. x \<noteq> this \<and> x \<noteq> tmp \<longrightarrow> node_at s4 x = node_at s3 x \<and> size_at s4 x = size_at s3 x"
      by blast
    from destroy_ok[OF s4(3), of nd, simplified] obtain s5 where
      s5: "destroy nd tmp s4 = Some (Inr (), s5)" "next_free s5 = next_free s4"
          "dom (node_at s5) = dom (node_at s4) - {tmp}"
          "\<forall>x. x \<noteq> tmp \<longrightarrow> node_at s5 x = node_at s4 x"
          "\<forall>x. x \<noteq> tmp \<longrightarrow> size_at s5 x = size_at s4 x"
      by (elim exE conjE) iprover
    have res: "(case r of Inl e \<Rightarrow> unwind nd tmp e s3 | Inr u \<Rightarrow> swap_and_leave nd this tmp s3)
                 = Some (Inr (), s5)"
      using r s4(1) s5(1) by (simp add: swap_and_leave_def)
    have l5: "is_list s5 this new"
      using s5(4,5) ne tmp_new by (intro is_list_cong[OF s4(2)]) auto
    have ok5: "heap_ok s5"
      using s3(4) s4(4,5) s5(2,3) by (auto simp: heap_ok_def)
    have gone: "node_at s5 tmp = None" using s5(3) by auto
    have fr: "\<forall>x. x < next_free s \<and> x \<noteq> this \<and> x \<noteq> tmp \<longrightarrow> node_at s5 x = node_at s x"
      using s3(7) s4(6) s5(4) by simp
    have fr2: "\<forall>x. x \<noteq> this \<and> x \<noteq> tmp \<longrightarrow> size_at s5 x = size_at s x"
      using s3(8) s4(6) s5(5) by simp
    have nf: "next_free s \<le> next_free s5" using s3(5) s4(4) s5(2) by simp
    show ?thesis
      using res l5 vals ok5 nf s3(6) gone fr fr2 True
      by (intro exI[of _ s5] exI[of _ new]) simp
  next
    case False
    then have r: "r = Inl CopyFailed" using s3(1) by simp
    from destroy_ok[OF s3(2), of nd] obtain s5 where
      s5: "destroy nd tmp s3 = Some (Inr (), s5)" "next_free s5 = next_free s3"
          "dom (node_at s5) = dom (node_at s3) - fst ` set new - {tmp}"
          "\<forall>x. x \<noteq> tmp \<and> x \<notin> fst ` set new \<longrightarrow> node_at s5 x = node_at s3 x"
          "\<forall>x. x \<noteq> tmp \<longrightarrow> size_at s5 x = size_at s3 x"
      by (elim exE conjE) iprover
    have res: "(case r of Inl e \<Rightarrow> unwind nd tmp e s3 | Inr u \<Rightarrow> swap_and_leave nd this tmp s3)
                 = Some (Inl CopyFailed, s5)"
      using r s5(1) by (simp add: unwind_def)
    have l5: "is_list s5 this []"
      using s5(4,5) ne this_new by (intro is_list_cong[OF this3]) auto
    have ok5: "heap_ok s5"
      using s3(4) s5(2,3) by (auto simp: heap_ok_def)
    have gone: "node_at s5 tmp = None" using s5(3) by auto
    have "\<And>x. x < next_free s \<Longrightarrow> x \<notin> fst ` set new" using s3(6) by fastforce
    then have fr: "\<forall>x. x < next_free s \<and> x \<noteq> this \<and> x \<noteq> tmp \<longrightarrow> node_at s5 x = node_at s x"
      using s3(7) s5(4) by simp
    have fr2: "\<forall>x. x \<noteq> this \<and> x \<noteq> tmp \<longrightarrow> size_at s5 x = size_at s x"
      using s3(8) s5(5) by simp
    have nf: "next_free s \<le> next_free s5" using s3(5) s5(2) by simp
    show ?thesis
      using res l5 ok5 nf gone fr fr2 False
      by (intro exI[of _ s5] exI[of _ "[]"]) simp
  qed
qed

text \<open>The state in which both constructors start to fill \<open>tmp\<close>.\<close>

lemma ctor_start:
  fixes T :: "'a Type_ops" and s :: "'a state" and this :: addr
  assumes ok: "heap_ok s" and lt: "this < next_free s"
  defines "s2 \<equiv> SingleLinkedList_default T (next_free s)
                   ((init_members (T_uninit T) this s)\<lparr>next_free := Suc (next_free s)\<rparr>)"
  shows "is_list s2 this []" and "is_list s2 (next_free s) []" and "heap_ok s2"
    and "next_free s2 = Suc (next_free s)"
    and "\<forall>x. x \<noteq> this \<and> x \<noteq> next_free s \<longrightarrow> node_at s2 x = node_at s x \<and> size_at s2 x = size_at s x"
  using ok lt
  by (auto simp: s2_def SingleLinkedList_default_def init_members_def is_list_def heap_ok_def
           less_Suc_eq split: if_splits)

lemma SingleLinkedList_init_ok:
  assumes ok: "heap_ok s" and lt: "this < next_free s" and len: "length vs < 2 ^ 64"
  shows "\<exists>s' cs'. SingleLinkedList_init nd T this vs s
                    = Some ((if \<forall>v \<in> set vs. \<not> copy_throws T v then Inr () else Inl CopyFailed), s') \<and>
           is_list s' this cs' \<and>
           map snd cs' = (if \<forall>v \<in> set vs. \<not> copy_throws T v then vs else []) \<and>
           heap_ok s' \<and> next_free s \<le> next_free s' \<and>
           (\<forall>a \<in> fst ` set cs'. next_free s \<le> a) \<and>
           (\<forall>x. x < next_free s \<and> x \<noteq> this \<longrightarrow> node_at s' x = node_at s x \<and> size_at s' x = size_at s x)"
proof -
  define tmp where "tmp = next_free s"
  define s2 where "s2 = SingleLinkedList_default T tmp
                          ((init_members (T_uninit T) this s)\<lparr>next_free := Suc tmp\<rparr>)"
  note st = ctor_start[OF ok lt, of T, folded tmp_def, folded s2_def]
  have st4: "next_free s2 = Suc (next_free s)" using st(4) by (simp add: tmp_def)
  have ne: "this \<noteq> tmp" using lt by (simp add: tmp_def)
  obtain r s3 where run: "InsetAfterListItems_values nd T tmp vs s2 = (r, s3)"
    by (cases "InsetAfterListItems_values nd T tmp vs s2") auto
  from build_and_swap[OF st(1,2) ne st(3) len run] obtain s' cs' where
    s': "(case r of Inl e \<Rightarrow> unwind nd tmp e s3 | Inr u \<Rightarrow> swap_and_leave nd this tmp s3)
           = Some ((if \<forall>v \<in> set vs. \<not> copy_throws T v then Inr () else Inl CopyFailed), s')"
        "is_list s' this cs'"
        "map snd cs' = (if \<forall>v \<in> set vs. \<not> copy_throws T v then vs else [])"
        "heap_ok s'" "next_free s2 \<le> next_free s'"
        "\<forall>a \<in> fst ` set cs'. next_free s2 \<le> a"
        "\<forall>x. x < next_free s2 \<and> x \<noteq> this \<and> x \<noteq> tmp \<longrightarrow> node_at s' x = node_at s2 x"
        "\<forall>x. x \<noteq> this \<and> x \<noteq> tmp \<longrightarrow> size_at s' x = size_at s2 x"
    by blast
  have nf_init: "next_free (init_members (T_uninit T) this s) = next_free s"
    by (simp add: init_members_def)
  have unfold: "SingleLinkedList_init nd T this vs s
                  = (case InsetAfterListItems_values nd T tmp vs s2 of
                       (Inl e, s3) \<Rightarrow> unwind nd tmp e s3
                     | (Inr u, s3) \<Rightarrow> swap_and_leave nd this tmp s3)"
    unfolding SingleLinkedList_init_def Let_def alloc_obj_def prod.case nf_init s2_def tmp_def
    by (rule refl)
  have res: "SingleLinkedList_init nd T this vs s
               = Some ((if \<forall>v \<in> set vs. \<not> copy_throws T v then Inr () else Inl CopyFailed), s')"
    using run s'(1) by (simp add: unfold)
  have fr: "\<forall>x. x < next_free s \<and> x \<noteq> this \<longrightarrow>
               node_at s' x = node_at s x \<and> size_at s' x = size_at s x"
    using s'(7,8) st(4,5) by (auto simp: tmp_def)
  have nf: "next_free s \<le> next_free s'" using s'(5) st(4) by (simp add: tmp_def)
  have ad: "\<forall>a \<in> fst ` set cs'. next_free s \<le> a" using s'(6) st(4) by (auto simp: tmp_def)
  show ?thesis using res s'(2,3,4) nf ad fr by blast
qed

lemma SingleLinkedList_copy_ok:
  assumes ok: "heap_ok s" and lt: "this < next_free s" and other: "is_list s other cb"
    and ne_other: "this \<noteq> other" and notin: "this \<notin> fst ` set cb"
  shows "\<exists>s' cs'. SingleLinkedList_copy nd T this other s
                    = Some ((if \<forall>v \<in> set (map snd cb). \<not> copy_throws T v then Inr ()
                             else Inl CopyFailed), s') \<and>
           is_list s' this cs' \<and>
           map snd cs' = (if \<forall>v \<in> set (map snd cb). \<not> copy_throws T v then map snd cb else []) \<and>
           heap_ok s' \<and> next_free s \<le> next_free s' \<and>
           (\<forall>a \<in> fst ` set cs'. next_free s \<le> a) \<and>
           (\<forall>x. x < next_free s \<and> x \<noteq> this \<longrightarrow> node_at s' x = node_at s x \<and> size_at s' x = size_at s x)"
proof -
  define tmp where "tmp = next_free s"
  define s2 where "s2 = SingleLinkedList_default T tmp
                          ((init_members (T_uninit T) this s)\<lparr>next_free := Suc tmp\<rparr>)"
  note st = ctor_start[OF ok lt, of T, folded tmp_def, folded s2_def]
  have st4: "next_free s2 = Suc (next_free s)" using st(4) by (simp add: tmp_def)
  have ne: "this \<noteq> tmp" using lt by (simp add: tmp_def)
  have below: "\<And>a. a \<in> insert other (fst ` set cb) \<Longrightarrow> a < next_free s"
    using is_list_below[OF other ok] by blast
  have other2: "is_list s2 other cb"
  proof (rule is_list_cong[OF other, of s2])
    show "node_at s2 other = node_at s other" "size_at s2 other = size_at s other"
      using st(5) ne_other below[of other] by (auto simp: tmp_def)
  next
    fix a assume "a \<in> fst ` set cb"
    then have "a \<noteq> this" "a \<noteq> tmp" using notin below[of a] by (auto simp: tmp_def)
    then show "node_at s2 a = node_at s a" using st(5) by (simp add: tmp_def)
  qed
  from is_listD[OF other2] obtain hb where hb: "node_at s2 other = Some hb"
    "chain (node_at s2) (next_node hb) cb" by blast
  have tmp_notin: "tmp \<notin> fst ` set cb" using below[of tmp] by (auto simp: tmp_def)
  have below2: "\<And>a. a \<in> fst ` set cb \<Longrightarrow> a < next_free s2"
  proof -
    fix a assume "a \<in> fst ` set cb"
    then have "a < next_free s" using below[of a] by simp
    then show "a < next_free s2" using st(4) by (simp add: tmp_def)
  qed
  obtain r s3 where run: "InsetAfterListItems_values nd T tmp (map snd cb) s2 = (r, s3)"
    by (cases "InsetAfterListItems_values nd T tmp (map snd cb) s2") auto
  have loop: "InsetAfterListItems_list nd T tmp other s2 = Some (r, s3)"
    using InsetAfter_loop_is_values[OF hb(2) tmp_notin below2, of nd T tmp] hb(1) run
    by (simp add: InsetAfterListItems_list_def list_begin_def cbefore_begin_def
          InsetAfterListItems_values_def)
  have len: "length (map snd cb) < 2 ^ 64" using is_list_length[OF other] by simp
  from build_and_swap[OF st(1,2) ne st(3) len run] obtain s' cs' where
    s': "(case r of Inl e \<Rightarrow> unwind nd tmp e s3 | Inr u \<Rightarrow> swap_and_leave nd this tmp s3)
           = Some ((if \<forall>v \<in> set (map snd cb). \<not> copy_throws T v then Inr () else Inl CopyFailed), s')"
        "is_list s' this cs'"
        "map snd cs' = (if \<forall>v \<in> set (map snd cb). \<not> copy_throws T v then map snd cb else [])"
        "heap_ok s'" "next_free s2 \<le> next_free s'"
        "\<forall>a \<in> fst ` set cs'. next_free s2 \<le> a"
        "\<forall>x. x < next_free s2 \<and> x \<noteq> this \<and> x \<noteq> tmp \<longrightarrow> node_at s' x = node_at s2 x"
        "\<forall>x. x \<noteq> this \<and> x \<noteq> tmp \<longrightarrow> size_at s' x = size_at s2 x"
    by blast
  have nf_init: "next_free (init_members (T_uninit T) this s) = next_free s"
    by (simp add: init_members_def)
  have a1: "size_at (init_members (T_uninit T) this s) this = Some 0"
    and a2: "map_option next_node (node_at (init_members (T_uninit T) this s) this) = Some None"
    by (simp_all add: init_members_def)
  have unfold: "SingleLinkedList_copy nd T this other s
                  = (case InsetAfterListItems_list nd T tmp other s2 of
                       None \<Rightarrow> None
                     | Some (Inl e, s3) \<Rightarrow> unwind nd tmp e s3
                     | Some (Inr u, s3) \<Rightarrow> swap_and_leave nd this tmp s3)"
    unfolding SingleLinkedList_copy_def Let_def alloc_obj_def prod.case nf_init s2_def tmp_def
    by (simp add: a1 a2)
  have res: "SingleLinkedList_copy nd T this other s
               = Some ((if \<forall>v \<in> set (map snd cb). \<not> copy_throws T v then Inr () else Inl CopyFailed), s')"
    using loop s'(1) by (simp add: unfold del: set_map)
  have fr: "\<forall>x. x < next_free s \<and> x \<noteq> this \<longrightarrow>
               node_at s' x = node_at s x \<and> size_at s' x = size_at s x"
    using s'(7,8) st(4,5) by (auto simp: tmp_def)
  have nf: "next_free s \<le> next_free s'" using s'(5) st(4) by (simp add: tmp_def)
  have ad: "\<forall>a \<in> fst ` set cs'. next_free s \<le> a" using s'(6) st(4) by (auto simp: tmp_def)
  show ?thesis using res s'(2,3,4) nf ad fr by blast
qed

lemma separateD:
  assumes "separate a ca b cb"
  shows "a \<noteq> b" and "a \<notin> fst ` set cb" and "b \<notin> fst ` set ca"
    and "\<And>x. x \<in> fst ` set ca \<Longrightarrow> x \<notin> fst ` set cb"
  using assms by (auto simp: separate_def)

lemma operator_assign_ok:
  assumes ok: "heap_ok s" and A: "is_list s a ca" and B: "is_list s b cb"
    and sep: "separate a ca b cb"
  shows "\<exists>s' cs'. operator_assign nd T a b s
                    = Some ((if \<forall>v \<in> set (map snd cb). \<not> copy_throws T v then Inr ()
                             else Inl CopyFailed), s') \<and>
           is_list s' a cs' \<and>
           (if \<forall>v \<in> set (map snd cb). \<not> copy_throws T v then map snd cs' = map snd cb
            else cs' = ca) \<and>
           is_list s' b cb \<and> heap_ok s' \<and>
           (\<forall>x. x < next_free s \<and> x \<noteq> a \<and> x \<notin> fst ` set ca \<longrightarrow>
                node_at s' x = node_at s x \<and> size_at s' x = size_at s x)"
proof -
  note sp = separateD[OF sep]
  define t where "t = next_free s"
  define s1 where "s1 = s\<lparr>next_free := Suc t\<rparr>"
  have ok1: "heap_ok s1" using ok by (auto simp: heap_ok_def s1_def t_def less_Suc_eq)
  have t_lt: "t < next_free s1" by (simp add: s1_def)
  have belowA: "\<And>x. x \<in> insert a (fst ` set ca) \<Longrightarrow> x < t"
    using is_list_below[OF A ok] by (simp add: t_def)
  have belowB: "\<And>x. x \<in> insert b (fst ` set cb) \<Longrightarrow> x < t"
    using is_list_below[OF B ok] by (simp add: t_def)
  have B1: "is_list s1 b cb"
    by (rule is_list_cong[OF B, of s1]) (simp_all add: s1_def)
  have t_b: "t \<noteq> b" using belowB[of b] by auto
  have t_cb: "t \<notin> fst ` set cb" using belowB[of t] by auto
  have t_a: "t \<noteq> a" using belowA[of a] by auto
  have t_ca: "t \<notin> fst ` set ca" using belowA[of t] by auto
  from SingleLinkedList_copy_ok[OF ok1 t_lt B1 t_b t_cb, of nd T] obtain s2 cs' where
    s2: "SingleLinkedList_copy nd T t b s1
           = Some ((if \<forall>v \<in> set (map snd cb). \<not> copy_throws T v then Inr () else Inl CopyFailed), s2)"
        "is_list s2 t cs'"
        "map snd cs' = (if \<forall>v \<in> set (map snd cb). \<not> copy_throws T v then map snd cb else [])"
        "heap_ok s2" "next_free s1 \<le> next_free s2"
        "\<forall>a \<in> fst ` set cs'. next_free s1 \<le> a"
        "\<forall>x. x < next_free s1 \<and> x \<noteq> t \<longrightarrow> node_at s2 x = node_at s1 x \<and> size_at s2 x = size_at s1 x"
    by (elim exE conjE) iprover
  have fr: "\<And>x. x < t \<Longrightarrow> node_at s2 x = node_at s x \<and> size_at s2 x = size_at s x"
    using s2(7) by (simp add: s1_def)
  have A2: "is_list s2 a ca"
    using fr belowA by (intro is_list_cong[OF A, of s2]) auto
  have B2: "is_list s2 b cb"
    using fr belowB by (intro is_list_cong[OF B, of s2]) auto
  have new_ge: "\<And>x. x \<in> fst ` set cs' \<Longrightarrow> t < x"
    using s2(6) by (auto simp: s1_def)
  have unfold: "operator_assign nd T a b s
                  = (case SingleLinkedList_copy nd T t b s1 of
                       None \<Rightarrow> None
                     | Some (Inl e, s2) \<Rightarrow>
                         Some (Inl e, if e = CopyFailed then release t s2 else s2)
                     | Some (Inr u, s2) \<Rightarrow> swap_and_leave nd a t s2)"
    unfolding operator_assign_def Let_def alloc_obj_def prod.case s1_def t_def
    using sp(1) by simp
  show ?thesis
  proof (cases "\<forall>v \<in> set (map snd cb). \<not> copy_throws T v")
    case True
    have a_new: "a \<notin> fst ` set cs'" using new_ge[of a] belowA[of a] by auto
    from swap_ok[OF A2 s2(2) a_new t_ca] obtain s3 where
      s3: "swap a t s2 = (Inr (), s3)" "is_list s3 a cs'" "is_list s3 t ca"
          "next_free s3 = next_free s2" "dom (node_at s3) = dom (node_at s2)"
          "\<forall>x. x \<noteq> a \<and> x \<noteq> t \<longrightarrow> node_at s3 x = node_at s2 x \<and> size_at s3 x = size_at s2 x"
      by (elim exE conjE) iprover
    from destroy_ok[OF s3(3), of nd] obtain s4 where
      s4: "destroy nd t s3 = Some (Inr (), s4)" "next_free s4 = next_free s3"
          "dom (node_at s4) = dom (node_at s3) - fst ` set ca - {t}"
          "\<forall>x. x \<noteq> t \<and> x \<notin> fst ` set ca \<longrightarrow> node_at s4 x = node_at s3 x"
          "\<forall>x. x \<noteq> t \<longrightarrow> size_at s4 x = size_at s3 x"
      by (elim exE conjE) iprover
    have res: "operator_assign nd T a b s = Some (Inr (), s4)"
      using s2(1) True s3(1) s4(1) by (simp add: unfold swap_and_leave_def del: set_map)
    have a_ca: "a \<notin> fst ` set ca" using is_list_sentinel_notin[OF A] .
    have A4: "is_list s4 a cs'"
    proof (rule is_list_cong[OF s3(2), of s4])
      show "node_at s4 a = node_at s3 a" "size_at s4 a = size_at s3 a"
        using s4(4,5) t_a a_ca by auto
    next
      fix x assume x: "x \<in> fst ` set cs'"
      then have "x \<noteq> t" using new_ge[of x] by auto
      moreover have "x \<notin> fst ` set ca" using new_ge[OF x] belowA[of x] by auto
      ultimately show "node_at s4 x = node_at s3 x" using s4(4) by simp
    qed
    have B3: "is_list s3 b cb"
    proof (rule is_list_cong[OF B2, of s3])
      show "node_at s3 b = node_at s2 b" "size_at s3 b = size_at s2 b"
        using s3(6) sp(1) t_b by auto
    next
      fix x assume x: "x \<in> fst ` set cb"
      then have "x \<noteq> t" "x \<noteq> a" using t_cb sp(2) by auto
      then show "node_at s3 x = node_at s2 x" using s3(6) by simp
    qed
    have B4: "is_list s4 b cb"
    proof (rule is_list_cong[OF B3, of s4])
      show "node_at s4 b = node_at s3 b" "size_at s4 b = size_at s3 b"
        using s4(4,5) t_b sp(3) by auto
    next
      fix x assume x: "x \<in> fst ` set cb"
      then have "x \<noteq> t" "x \<notin> fst ` set ca" using t_cb sp(4)[of x] by auto
      then show "node_at s4 x = node_at s3 x" using s4(4) by simp
    qed
    have ok4: "heap_ok s4"
      using s2(4) s3(4,5) s4(2,3) by (auto simp: heap_ok_def)
    have frame: "\<forall>x. x < next_free s \<and> x \<noteq> a \<and> x \<notin> fst ` set ca \<longrightarrow>
                    node_at s4 x = node_at s x \<and> size_at s4 x = size_at s x"
      using fr s3(6) s4(4,5) by (simp add: t_def)
    have "map snd cs' = map snd cb" using s2(3) True by simp
    then show ?thesis
      using res A4 B4 ok4 frame True by (intro exI[of _ s4] exI[of _ cs']) simp
  next
    case False
    have res: "operator_assign nd T a b s = Some (Inl CopyFailed, release t s2)"
      using s2(1) False by (simp add: unfold del: set_map)
    have A3: "is_list (release t s2) a ca"
      using t_a t_ca by (intro is_list_cong[OF A2]) (auto simp: release_def)
    have B3: "is_list (release t s2) b cb"
      using t_b t_cb by (intro is_list_cong[OF B2]) (auto simp: release_def)
    have ok3: "heap_ok (release t s2)"
      using s2(4) by (auto simp: heap_ok_def release_def split: if_splits)
    have frame: "\<forall>x. x < next_free s \<and> x \<noteq> a \<and> x \<notin> fst ` set ca \<longrightarrow>
                    node_at (release t s2) x = node_at s x \<and> size_at (release t s2) x = size_at s x"
      using fr by (simp add: t_def release_def)
    show ?thesis
      using res A3 B3 ok3 frame False by (intro exI[of _ "release t s2"] exI[of _ ca]) simp
  qed
qed

section \<open>The invariant under each operation\<close>

lemma invariantI: "is_list s L cs \<Longrightarrow> invariant s L"
  unfolding invariant_def by blast

lemma pos_in_this:
  assumes "i \<le> length cs"
  shows "(this # map fst cs) ! i \<in> insert this (fst ` set cs)"
proof (cases i)
  case 0
  then show ?thesis by simp
next
  case (Suc j)
  then have "j < length cs" using assms by simp
  then have "cs ! j \<in> set cs" by simp
  then have "fst (cs ! j) \<in> fst ` set cs" by (rule imageI)
  then show ?thesis using Suc \<open>j < length cs\<close> by simp
qed

lemma separate_pos:
  assumes "separate this cs other co" and "p \<in> insert this (fst ` set cs)"
  shows "p \<noteq> other" and "p \<notin> fst ` set co"
  using assms by (auto simp: separate_def)

text \<open>
  A list keeps its cells when the store changes only at addresses that are neither its
  sentinel nor one of its nodes.
\<close>

lemma untouched_list:
  assumes O: "is_list s other co"
    and n: "\<And>x. x \<in> insert other (fst ` set co) \<Longrightarrow> node_at s' x = node_at s x"
    and z: "size_at s' other = size_at s other"
  shows "is_list s' other co"
  using n z by (intro is_list_cong[OF O, of s']) auto

lemma default_ctor_keeps:
  "invariant (SingleLinkedList_default T fresh s) fresh \<and>
   (heap_ok s \<and> fresh < next_free s \<longrightarrow> heap_ok (SingleLinkedList_default T fresh s)) \<and>
   (\<forall>other co. is_list s other co \<and> fresh \<notin> insert other (fst ` set co) \<longrightarrow>
        is_list (SingleLinkedList_default T fresh s) other co)"
proof (intro conjI allI impI)
  show "invariant (SingleLinkedList_default T fresh s) fresh"
    unfolding SingleLinkedList_default_def by (rule invariantI[OF is_list_empty_init])
next
  assume "heap_ok s \<and> fresh < next_free s"
  then show "heap_ok (SingleLinkedList_default T fresh s)"
    by (auto simp: heap_ok_def SingleLinkedList_default_def init_members_def split: if_splits)
next
  fix other and co :: "(addr \<times> 'a) list"
  assume a: "is_list s other co \<and> fresh \<notin> insert other (fst ` set co)"
  then have O: "is_list s other co" and f: "fresh \<notin> insert other (fst ` set co)" by blast+
  show "is_list (SingleLinkedList_default T fresh s) other co"
    using f by (intro untouched_list[OF O])
               (auto simp: SingleLinkedList_default_def init_members_def)
qed

lemma init_ctor_keeps:
  assumes ok: "heap_ok s" and lt: "fresh < next_free s" and len: "length vs < 2 ^ 64"
  shows "\<exists>r s'. SingleLinkedList_init nd T fresh vs s = Some (r, s') \<and>
           invariant s' fresh \<and> heap_ok s' \<and>
           (\<forall>other co. is_list s other co \<and> fresh \<notin> insert other (fst ` set co) \<longrightarrow>
                is_list s' other co)"
proof -
  from SingleLinkedList_init_ok[OF ok lt len, of nd T] obtain s1 c1 where
    s1: "SingleLinkedList_init nd T fresh vs s
           = Some ((if \<forall>v \<in> set vs. \<not> copy_throws T v then Inr () else Inl CopyFailed), s1)"
        "is_list s1 fresh c1" "heap_ok s1"
        "\<forall>x. x < next_free s \<and> x \<noteq> fresh \<longrightarrow> node_at s1 x = node_at s x \<and> size_at s1 x = size_at s x"
    by (elim exE conjE) iprover
  have fr: "\<forall>other co. is_list s other co \<and> fresh \<notin> insert other (fst ` set co) \<longrightarrow>
                is_list s1 other co"
  proof (intro allI impI)
    fix other and co :: "(addr \<times> 'a) list"
    assume a: "is_list s other co \<and> fresh \<notin> insert other (fst ` set co)"
    then have O: "is_list s other co" and f: "fresh \<notin> insert other (fst ` set co)" by blast+
    have below: "\<And>x. x \<in> insert other (fst ` set co) \<Longrightarrow> x < next_free s"
      using is_list_below[OF O ok] by blast
    show "is_list s1 other co"
    proof (rule untouched_list[OF O])
      fix x assume x: "x \<in> insert other (fst ` set co)"
      then have "x < next_free s" "x \<noteq> fresh" using below[OF x] f by auto
      then show "node_at s1 x = node_at s x" using s1(4) by simp
    next
      have "other < next_free s" "other \<noteq> fresh" using below[of other] f by auto
      then show "size_at s1 other = size_at s other" using s1(4) by simp
    qed
  qed
  show ?thesis using s1(1,2,3) fr invariantI by blast
qed

lemma copy_ctor_keeps:
  assumes ok: "heap_ok s" and L: "is_list s this cs" and lt: "fresh < next_free s"
    and fn: "fresh \<notin> insert this (fst ` set cs)"
  shows "\<exists>r s'. SingleLinkedList_copy nd T fresh this s = Some (r, s') \<and>
           invariant s' fresh \<and> is_list s' this cs \<and> heap_ok s' \<and>
           (\<forall>other co. is_list s other co \<and> fresh \<notin> insert other (fst ` set co) \<longrightarrow>
                is_list s' other co)"
proof -
  have fn': "fresh \<noteq> this" "fresh \<notin> fst ` set cs" using fn by auto
  from SingleLinkedList_copy_ok[OF ok lt L fn', of nd T] obtain s2 c2 where
    s2: "SingleLinkedList_copy nd T fresh this s
           = Some ((if \<forall>v \<in> set (map snd cs). \<not> copy_throws T v then Inr () else Inl CopyFailed), s2)"
        "is_list s2 fresh c2" "heap_ok s2"
        "\<forall>x. x < next_free s \<and> x \<noteq> fresh \<longrightarrow> node_at s2 x = node_at s x \<and> size_at s2 x = size_at s x"
    by (elim exE conjE) iprover
  have fr: "\<forall>other co. is_list s other co \<and> fresh \<notin> insert other (fst ` set co) \<longrightarrow>
                is_list s2 other co"
  proof (intro allI impI)
    fix other and co :: "(addr \<times> 'a) list"
    assume a: "is_list s other co \<and> fresh \<notin> insert other (fst ` set co)"
    then have O: "is_list s other co" and f: "fresh \<notin> insert other (fst ` set co)" by blast+
    have below: "\<And>x. x \<in> insert other (fst ` set co) \<Longrightarrow> x < next_free s"
      using is_list_below[OF O ok] by blast
    show "is_list s2 other co"
    proof (rule untouched_list[OF O])
      fix x assume x: "x \<in> insert other (fst ` set co)"
      then have "x < next_free s" "x \<noteq> fresh" using below[OF x] f by auto
      then show "node_at s2 x = node_at s x" using s2(4) by simp
    next
      have "other < next_free s" "other \<noteq> fresh" using below[of other] f by auto
      then show "size_at s2 other = size_at s other" using s2(4) by simp
    qed
  qed
  have "is_list s2 this cs" using fr L fn by blast
  then show ?thesis using s2(1,2,3) fr invariantI by blast
qed

lemma InsertAfter_keeps:
  assumes ok: "heap_ok s" and L: "is_list s this cs" and cap: "Suc (length cs) < 2 ^ 64"
    and i: "i \<le> length cs"
  shows "invariant (snd (InsertAfter nd T this (BasicIterator (Some ((this # map fst cs) ! i))) v s)) this \<and>
         heap_ok (snd (InsertAfter nd T this (BasicIterator (Some ((this # map fst cs) ! i))) v s)) \<and>
         (\<forall>other co. is_list s other co \<and> separate this cs other co \<longrightarrow>
            is_list (snd (InsertAfter nd T this (BasicIterator (Some ((this # map fst cs) ! i))) v s))
              other co)"
proof (cases "copy_throws T v")
  case True
  show ?thesis
    using InsertAfter_throws[OF L i True, of nd] ok L by (simp add: invariantI)
next
  case False
  define b where "b = (this # map fst cs) ! i"
  from InsertAfter_ok[OF L ok i False cap, of nd] obtain s' where
    s': "InsertAfter nd T this (BasicIterator (Some b)) v s
           = (Inr (BasicIterator (Some (next_free s))), s')"
        "is_list s' this (take i cs @ (next_free s, v) # drop i cs)"
        "heap_ok s'" "next_free s' = Suc (next_free s)"
        "\<forall>x. x \<noteq> b \<and> x \<noteq> next_free s \<longrightarrow> node_at s' x = node_at s x"
        "\<forall>x. x \<noteq> this \<longrightarrow> size_at s' x = size_at s x"
    unfolding b_def by (elim exE conjE) iprover
  have bpos: "b \<in> insert this (fst ` set cs)" unfolding b_def by (rule pos_in_this[OF i])
  have fr: "\<forall>other co. is_list s other co \<and> separate this cs other co \<longrightarrow> is_list s' other co"
  proof (intro allI impI)
    fix other and co :: "(addr \<times> 'a) list"
    assume a: "is_list s other co \<and> separate this cs other co"
    then have O: "is_list s other co" and sep: "separate this cs other co" by blast+
    have below: "\<And>x. x \<in> insert other (fst ` set co) \<Longrightarrow> x < next_free s"
      using is_list_below[OF O ok] by blast
    show "is_list s' other co"
    proof (rule untouched_list[OF O])
      fix x assume x: "x \<in> insert other (fst ` set co)"
      then have "x \<noteq> b" using separate_pos[OF sep bpos] by auto
      moreover have "x \<noteq> next_free s" using below[OF x] by auto
      ultimately show "node_at s' x = node_at s x" using s'(5) by simp
    next
      have "other \<noteq> this" using separate_pos(1)[OF sep, of this] by auto
      then show "size_at s' other = size_at s other" using s'(6) by simp
    qed
  qed
  show ?thesis using s'(1,2,3) fr unfolding b_def by (simp add: invariantI)
qed

lemma PushFront_keeps:
  assumes ok: "heap_ok s" and L: "is_list s this cs" and cap: "Suc (length cs) < 2 ^ 64"
  shows "invariant (snd (PushFront T this v s)) this \<and> heap_ok (snd (PushFront T this v s)) \<and>
         (\<forall>other co. is_list s other co \<and> separate this cs other co \<longrightarrow>
            is_list (snd (PushFront T this v s)) other co)"
proof -
  have eq: "snd (PushFront T this v s)
              = snd (InsertAfter True T this (BasicIterator (Some ((this # map fst cs) ! 0))) v s)"
    using PushFront_as_InsertAfter[of T this v s True]
    by (simp add: before_begin_def split: prod.splits)
  have "(0::nat) \<le> length cs" by simp
  from InsertAfter_keeps[OF ok L cap this, of True T v] show ?thesis unfolding eq .
qed

lemma EraseAfter_keeps:
  assumes L: "is_list s this cs" and i: "i < length cs"
  shows "invariant (snd (EraseAfter nd this (BasicIterator (Some ((this # map fst cs) ! i))) s)) this \<and>
         (heap_ok s \<longrightarrow>
            heap_ok (snd (EraseAfter nd this (BasicIterator (Some ((this # map fst cs) ! i))) s))) \<and>
         (\<forall>other co. is_list s other co \<and> separate this cs other co \<longrightarrow>
            is_list (snd (EraseAfter nd this (BasicIterator (Some ((this # map fst cs) ! i))) s))
              other co)"
proof -
  define b where "b = (this # map fst cs) ! i"
  define d where "d = fst (cs ! i)"
  define it where "it = BasicIterator (if Suc i < length cs then Some (fst (cs ! Suc i)) else None)"
  from EraseAfter_ok[OF L i, of nd] obtain s' where
    s': "EraseAfter nd this (BasicIterator (Some b)) s = (Inr it, s')"
        "is_list s' this (take i cs @ drop (Suc i) cs)"
        "next_free s' = next_free s"
        "dom (node_at s') = dom (node_at s) - {d}"
        "\<forall>x. x \<noteq> b \<and> x \<noteq> d \<longrightarrow> node_at s' x = node_at s x"
        "\<forall>x. x \<noteq> this \<longrightarrow> size_at s' x = size_at s x"
    unfolding b_def d_def it_def by (elim exE conjE) iprover
  have bpos: "b \<in> insert this (fst ` set cs)"
    unfolding b_def using i by (intro pos_in_this) simp
  have "cs ! i \<in> set cs" using i by simp
  then have "d \<in> fst ` set cs" unfolding d_def by (rule imageI)
  then have dpos: "d \<in> insert this (fst ` set cs)" by simp
  have fr: "\<forall>other co. is_list s other co \<and> separate this cs other co \<longrightarrow> is_list s' other co"
  proof (intro allI impI)
    fix other and co :: "(addr \<times> 'a) list"
    assume a: "is_list s other co \<and> separate this cs other co"
    then have O: "is_list s other co" and sep: "separate this cs other co" by blast+
    show "is_list s' other co"
    proof (rule untouched_list[OF O])
      fix x assume x: "x \<in> insert other (fst ` set co)"
      then have "x \<noteq> b" "x \<noteq> d"
        using separate_pos[OF sep bpos] separate_pos[OF sep dpos] by auto
      then show "node_at s' x = node_at s x" using s'(5) by simp
    next
      have "other \<noteq> this" using separate_pos(1)[OF sep, of this] by auto
      then show "size_at s' other = size_at s other" using s'(6) by simp
    qed
  qed
  have hk: "heap_ok s \<longrightarrow> heap_ok s'" using s'(3,4) by (auto simp: heap_ok_def)
  show ?thesis using s'(1,2) fr hk unfolding b_def by (simp add: invariantI)
qed

lemma PopFront_keeps:
  assumes L: "is_list s this cs"
  shows "invariant (snd (PopFront nd this s)) this \<and>
         (heap_ok s \<longrightarrow> heap_ok (snd (PopFront nd this s))) \<and>
         (\<forall>other co. is_list s other co \<and> separate this cs other co \<longrightarrow>
            is_list (snd (PopFront nd this s)) other co)"
proof (cases cs)
  case Nil
  then have "snd (PopFront nd this s) = s"
    using L by (auto simp: is_list_def PopFront_def unat_0_iff split: option.splits)
  then show ?thesis using L by (simp add: invariantI)
next
  case (Cons c cs')
  from is_listD[OF L] obtain hn n where h: "node_at s this = Some hn" "size_at s this = Some n"
    "unat n = length cs" "chain (node_at s) (next_node hn) cs" by blast
  have n0: "n \<noteq> 0" using h(3) Cons by auto
  have nx: "next_node hn \<noteq> None" using h(4) Cons by simp
  have eq: "snd (PopFront nd this s)
              = snd (EraseAfter nd this (BasicIterator (Some ((this # map fst cs) ! 0))) s)"
    using PopFront_as_EraseAfter[OF h(2) n0 h(1) nx, of nd]
    by (simp add: before_begin_def split: prod.splits)
  have "0 < length cs" using Cons by simp
  from EraseAfter_keeps[OF L this, of nd] show ?thesis unfolding eq .
qed

lemma Clear_keeps:
  assumes L: "is_list s this cs"
  shows "\<exists>s'. Clear nd this s = Some (Inr (), s') \<and> invariant s' this \<and>
              (heap_ok s \<longrightarrow> heap_ok s') \<and>
              (\<forall>other co. is_list s other co \<and> separate this cs other co \<longrightarrow>
                 is_list s' other co)"
proof -
  from Clear_ok[OF L, of nd] obtain s' where
    s': "Clear nd this s = Some (Inr (), s')" "is_list s' this []"
        "next_free s' = next_free s"
        "dom (node_at s') = dom (node_at s) - fst ` set cs"
        "\<forall>x. x \<noteq> this \<and> x \<notin> fst ` set cs \<longrightarrow> node_at s' x = node_at s x"
        "\<forall>x. x \<noteq> this \<longrightarrow> size_at s' x = size_at s x"
    by (elim exE conjE) iprover
  have fr: "\<forall>other co. is_list s other co \<and> separate this cs other co \<longrightarrow> is_list s' other co"
  proof (intro allI impI)
    fix other and co :: "(addr \<times> 'a) list"
    assume a: "is_list s other co \<and> separate this cs other co"
    then have O: "is_list s other co" and sep: "separate this cs other co" by blast+
    note sp = separateD[OF sep]
    show "is_list s' other co"
    proof (rule untouched_list[OF O])
      fix x assume x: "x \<in> insert other (fst ` set co)"
      then have "x \<noteq> this" "x \<notin> fst ` set cs" using sp by auto
      then show "node_at s' x = node_at s x" using s'(5) by simp
    next
      show "size_at s' other = size_at s other" using s'(6) sp(1) by auto
    qed
  qed
  have hk: "heap_ok s \<longrightarrow> heap_ok s'" using s'(3,4) by (auto simp: heap_ok_def)
  show ?thesis using s'(1,2) fr hk invariantI by blast
qed

lemma swap_keeps:
  assumes L: "is_list s this cs" and O: "is_list s other co"
    and tn: "this \<notin> fst ` set co" and on: "other \<notin> fst ` set cs"
  shows "\<exists>s'. swap this other s = (Inr (), s') \<and> invariant s' this \<and> invariant s' other \<and>
              (heap_ok s \<longrightarrow> heap_ok s') \<and>
              (\<forall>third ct. is_list s third ct \<and> this \<notin> insert third (fst ` set ct) \<and>
                          other \<notin> insert third (fst ` set ct) \<longrightarrow> is_list s' third ct)"
proof -
  from swap_ok[OF L O tn on] obtain s' where
    s': "swap this other s = (Inr (), s')" "is_list s' this co" "is_list s' other cs"
        "next_free s' = next_free s" "dom (node_at s') = dom (node_at s)"
        "\<forall>x. x \<noteq> this \<and> x \<noteq> other \<longrightarrow> node_at s' x = node_at s x \<and> size_at s' x = size_at s x"
    by (elim exE conjE) iprover
  have fr: "\<forall>third ct. is_list s third ct \<and> this \<notin> insert third (fst ` set ct) \<and>
                          other \<notin> insert third (fst ` set ct) \<longrightarrow> is_list s' third ct"
  proof (intro allI impI)
    fix third and ct :: "(addr \<times> 'a) list"
    assume a: "is_list s third ct \<and> this \<notin> insert third (fst ` set ct) \<and>
               other \<notin> insert third (fst ` set ct)"
    then have T: "is_list s third ct" and n1: "this \<notin> insert third (fst ` set ct)"
      and n2: "other \<notin> insert third (fst ` set ct)" by blast+
    show "is_list s' third ct"
    proof (rule untouched_list[OF T])
      fix x assume x: "x \<in> insert third (fst ` set ct)"
      then have "x \<noteq> this" "x \<noteq> other" using n1 n2 by auto
      then show "node_at s' x = node_at s x" using s'(6) by simp
    next
      have "third \<noteq> this" "third \<noteq> other" using n1 n2 by auto
      then show "size_at s' third = size_at s third" using s'(6) by simp
    qed
  qed
  have hk: "heap_ok s \<longrightarrow> heap_ok s'" using s'(4,5) by (auto simp: heap_ok_def)
  show ?thesis using s'(1,2,3) fr hk invariantI by blast
qed

lemma operator_assign_keeps:
  assumes ok: "heap_ok s" and L: "is_list s this cs" and O: "is_list s other co"
    and sep: "separate this cs other co"
  shows "\<exists>r s'. operator_assign nd T this other s = Some (r, s') \<and> invariant s' this \<and>
              invariant s' other \<and> heap_ok s' \<and>
              (\<forall>third ct. is_list s third ct \<and> separate this cs third ct \<longrightarrow>
                 is_list s' third ct)"
proof -
  from operator_assign_ok[OF ok L O sep, of nd T] obtain s' cs' where
    s': "operator_assign nd T this other s
       = Some ((if \<forall>v \<in> set (map snd co). \<not> copy_throws T v then Inr () else Inl CopyFailed), s')"
    "is_list s' this cs'" "is_list s' other co" "heap_ok s'"
    "\<forall>x. x < next_free s \<and> x \<noteq> this \<and> x \<notin> fst ` set cs \<longrightarrow>
         node_at s' x = node_at s x \<and> size_at s' x = size_at s x"
    by (elim exE conjE) iprover
  have fr: "\<forall>third ct. is_list s third ct \<and> separate this cs third ct \<longrightarrow> is_list s' third ct"
  proof (intro allI impI)
    fix third and ct :: "(addr \<times> 'a) list"
    assume a: "is_list s third ct \<and> separate this cs third ct"
    then have T: "is_list s third ct" and sp: "separate this cs third ct" by blast+
    note d = separateD[OF sp]
    have below: "\<And>x. x \<in> insert third (fst ` set ct) \<Longrightarrow> x < next_free s"
      using is_list_below[OF T ok] by blast
    show "is_list s' third ct"
    proof (rule untouched_list[OF T])
      fix x assume x: "x \<in> insert third (fst ` set ct)"
      then have "x \<noteq> this" "x \<notin> fst ` set cs" using d by auto
      then show "node_at s' x = node_at s x" using s'(5) below[OF x] by simp
    next
      have "third \<noteq> this" "third \<notin> fst ` set cs" using d by auto
      then show "size_at s' third = size_at s third" using s'(5) below[of third] by simp
    qed
  qed
  show ?thesis using s'(1,2,3,4) fr invariantI by blast
qed

section \<open>The comparison loops\<close>

lemma lex_earlier_iff:
  "lex_earlier lt xs ys =
     (\<exists>k. k \<le> min (length xs) (length ys) \<and>
        (\<forall>j. j < k \<longrightarrow> \<not> lt (xs ! j) (ys ! j) \<and> \<not> lt (ys ! j) (xs ! j)) \<and>
        (k = length xs \<and> k < length ys \<or>
         k < length xs \<and> k < length ys \<and> lt (xs ! k) (ys ! k)))"
  unfolding lex_earlier_def Bex_def Ball_def atMost_iff lessThan_iff by (rule refl)

lemma lex_earlier_Nil_Nil: "lex_earlier lt [] [] = False"
  by (simp add: lex_earlier_iff)

lemma lex_earlier_Nil_Cons: "lex_earlier lt [] (y # ys) = True"
  by (simp add: lex_earlier_iff)

lemma lex_earlier_Cons_Nil: "lex_earlier lt (x # xs) [] = False"
  by (simp add: lex_earlier_iff)

lemma lex_earlier_Cons_Cons:
  "lex_earlier lt (x # xs) (y # ys) = (lt x y \<or> (\<not> lt y x \<and> lex_earlier lt xs ys))"
proof
  assume "lex_earlier lt (x # xs) (y # ys)"
  then obtain k where k: "k \<le> min (length (x # xs)) (length (y # ys))"
    "\<forall>j. j < k \<longrightarrow> \<not> lt ((x # xs) ! j) ((y # ys) ! j) \<and> \<not> lt ((y # ys) ! j) ((x # xs) ! j)"
    "k = length (x # xs) \<and> k < length (y # ys) \<or>
     k < length (x # xs) \<and> k < length (y # ys) \<and> lt ((x # xs) ! k) ((y # ys) ! k)"
    unfolding lex_earlier_iff by blast
  show "lt x y \<or> (\<not> lt y x \<and> lex_earlier lt xs ys)"
  proof (cases k)
    case 0
    then show ?thesis using k(3) by simp
  next
    case (Suc k')
    have "\<not> lt x y \<and> \<not> lt y x" using k(2) Suc by auto
    moreover have "\<forall>j. j < k' \<longrightarrow> \<not> lt (xs ! j) (ys ! j) \<and> \<not> lt (ys ! j) (xs ! j)"
    proof (intro allI impI)
      fix j assume "j < k'"
      then have "Suc j < k" using Suc by simp
      then show "\<not> lt (xs ! j) (ys ! j) \<and> \<not> lt (ys ! j) (xs ! j)"
        using k(2) by fastforce
    qed
    moreover have "k' \<le> min (length xs) (length ys)" using k(1) Suc by simp
    moreover have "k' = length xs \<and> k' < length ys \<or>
                   k' < length xs \<and> k' < length ys \<and> lt (xs ! k') (ys ! k')"
      using k(3) Suc by simp
    ultimately have "lex_earlier lt xs ys"
      unfolding lex_earlier_iff by (intro exI[of _ k']) simp
    then show ?thesis using \<open>\<not> lt x y \<and> \<not> lt y x\<close> by simp
  qed
next
  assume r: "lt x y \<or> (\<not> lt y x \<and> lex_earlier lt xs ys)"
  show "lex_earlier lt (x # xs) (y # ys)"
  proof (cases "lt x y")
    case True
    then show ?thesis unfolding lex_earlier_iff by (intro exI[of _ 0]) simp
  next
    case False
    with r have nyx: "\<not> lt y x" and le: "lex_earlier lt xs ys" by auto
    from le obtain k where k: "k \<le> min (length xs) (length ys)"
      "\<forall>j. j < k \<longrightarrow> \<not> lt (xs ! j) (ys ! j) \<and> \<not> lt (ys ! j) (xs ! j)"
      "k = length xs \<and> k < length ys \<or> k < length xs \<and> k < length ys \<and> lt (xs ! k) (ys ! k)"
      unfolding lex_earlier_iff by blast
    have "\<forall>j. j < Suc k \<longrightarrow> \<not> lt ((x # xs) ! j) ((y # ys) ! j) \<and> \<not> lt ((y # ys) ! j) ((x # xs) ! j)"
    proof (intro allI impI)
      fix j assume j: "j < Suc k"
      show "\<not> lt ((x # xs) ! j) ((y # ys) ! j) \<and> \<not> lt ((y # ys) ! j) ((x # xs) ! j)"
        using j k(2) False nyx by (cases j) auto
    qed
    then show ?thesis
      unfolding lex_earlier_iff using k(1,3) by (intro exI[of _ "Suc k"]) simp
  qed
qed

lemma lex_walk_is_lex_earlier: "lex_walk lt xs ys = lex_earlier lt xs ys"
  by (induction lt xs ys rule: lex_walk.induct)
     (simp_all add: lex_earlier_Nil_Nil lex_earlier_Nil_Cons lex_earlier_Cons_Nil
        lex_earlier_Cons_Cons)

lemma std_lexicographical_compare_chain:
  assumes "chain (node_at s) p ca" and "chain (node_at s) q cb"
  shows "std_lexicographical_compare T s (BasicIterator p) list_end (BasicIterator q) list_end
           = Some (Inr (lex_walk (T_less T) (map snd ca) (map snd cb)))"
  using assms
proof (induction ca arbitrary: p q cb)
  case Nil
  then show ?case
    by (cases cb) (auto simp: std_lexicographical_compare.simps iter_ne_def iter_eq_def list_end_def)
next
  case (Cons c ca)
  from Cons.prems(1) obtain n where n: "p = Some (fst c)" "node_at s (fst c) = Some n"
    "val n = snd c" "chain (node_at s) (next_node n) ca"
    by (auto split: option.splits)
  show ?case
  proof (cases cb)
    case Nil
    then show ?thesis using Cons.prems(2) n
      by (simp add: std_lexicographical_compare.simps iter_ne_def iter_eq_def list_end_def)
  next
    case (Cons d cb')
    with Cons.prems(2) obtain m where m: "q = Some (fst d)" "node_at s (fst d) = Some m"
      "val m = snd d" "chain (node_at s) (next_node m) cb'"
      by (auto split: option.splits)
    have step: "std_lexicographical_compare T s (BasicIterator (next_node n)) list_end
                  (BasicIterator (next_node m)) list_end
                = Some (Inr (lex_walk (T_less T) (map snd ca) (map snd cb')))"
      using Cons.IH[OF n(4) m(4)] .
    show ?thesis
      unfolding Cons
      by (subst std_lexicographical_compare.simps)
         (simp add: n m step[unfolded list_end_def] iter_ne_def iter_eq_def list_end_def
            iter_deref_def iter_incr_def)
  qed
qed

section \<open>The claims\<close>

text \<open>
  In the theorems below a position of a list with cells \<open>cs\<close> is an index \<open>i\<close>: 0 is
  \<^verbatim>\<open>before_begin()\<close>, the sentinel, and \<open>i > 0\<close> is the \<open>i\<close>-th element, so that the
  iterator at position \<open>i\<close> holds the address \<open>(this # map fst cs) ! i\<close>. The positions
  that are not \<^verbatim>\<open>end()\<close> are those with \<open>i \<le> length cs\<close>, and the ones with a successor
  those with \<open>i < length cs\<close>.
\<close>

text \<open>
  Claim C1. \<^verbatim>\<open>operator==\<close> calls the three-iterator \<^verbatim>\<open>std::equal\<close>, which never looks
  at the end of the right-hand list. With the empty list on the left and \<^verbatim>\<open>{1}\<close> on the
  right it returns true, and \<^verbatim>\<open>!=\<close> false, for two lists of different lengths; with the
  operands exchanged it dereferences the null iterator.
\<close>

theorem operator_eq_on_a_prefix:
  "is_list two_lists 0 [] \<and> is_list two_lists 1 [(2, 1)] \<and>
   operator_eq int_ops two_lists 0 1 = Some (Inr True) \<and>
   operator_ne int_ops two_lists 0 1 = Some (Inr False) \<and>
   operator_eq int_ops two_lists 1 0 = Some (Inl UndefinedBehaviour)"
  by (simp add: is_list_def two_lists_def operator_eq_def operator_ne_def list_begin_def
        list_end_def std_equal.simps iter_ne_def iter_deref_def iter_incr_def int_ops_def)

text \<open>
  Claim C2, as stated, has \<^verbatim>\<open>before_begin()\<close> equal to \<^verbatim>\<open>begin()\<close> on the empty list.
  On the empty list \<^verbatim>\<open>begin()\<close> is \<^verbatim>\<open>end()\<close>, the null iterator, and \<^verbatim>\<open>before_begin()\<close>
  is at the sentinel: they differ.
\<close>

theorem before_begin_and_begin_on_empty_list:
  "is_list two_lists 0 [] \<and> list_begin two_lists 0 = Inr list_end \<and>
   \<not> iter_eq (before_begin 0) list_end"
  by (simp add: is_list_def two_lists_def list_begin_def list_end_def iter_eq_def before_begin_def)

text \<open>
  Claim C2, amended. For every list, empty or not, \<^verbatim>\<open>before_begin()\<close> is never equal to
  \<^verbatim>\<open>begin()\<close>, it is equal to \<^verbatim>\<open>cbefore_begin()\<close>, and advancing it by one step yields
  \<^verbatim>\<open>begin()\<close>, which is at the first cell, or is \<^verbatim>\<open>end()\<close> when the list is empty.
\<close>

theorem before_begin_is_one_step_before_begin:
  assumes "is_list s this cs"
  shows "\<exists>b. list_begin s this = Inr b \<and>
             \<not> iter_eq (before_begin this) b \<and>
             iter_eq (before_begin this) (cbefore_begin this) \<and>
             iter_incr s (before_begin this) = Inr b \<and>
             node b = (case cs of [] \<Rightarrow> None | c # cs' \<Rightarrow> Some (fst c))"
proof -
  from is_listD[OF assms] obtain hn where h: "node_at s this = Some hn"
    "chain (node_at s) (next_node hn) cs" by blast
  have notin: "this \<notin> fst ` set cs" using is_list_sentinel_notin[OF assms] .
  have nx: "next_node hn = (case cs of [] \<Rightarrow> None | c # cs' \<Rightarrow> Some (fst c))"
    using h(2) by (cases cs) auto
  have "next_node hn \<noteq> Some this"
    using nx notin by (cases cs) auto
  then show ?thesis
    using h(1) nx
    by (simp add: list_begin_def iter_eq_def before_begin_def cbefore_begin_def iter_incr_def)
qed

theorem before_begin_is_one_step_before_begin_witness:
  "is_list list_1234 0 [(1, 1), (2, 2), (3, 3), (4, 4)] \<and>
   (\<exists>b. list_begin list_1234 0 = Inr b \<and>
        \<not> iter_eq (before_begin 0) b \<and>
        iter_eq (before_begin 0) (cbefore_begin 0) \<and>
        iter_incr list_1234 (before_begin 0) = Inr b \<and>
        node b = (case [(1::nat, 1::int), (2, 2), (3, 3), (4, 4)] of [] \<Rightarrow> None | c # cs' \<Rightarrow> Some (fst c)))"
proof -
  have h1: "is_list list_1234 0 [(1, 1), (2, 2), (3, 3), (4, 4)]"
    by (simp add: is_list_def list_1234_def)
  show ?thesis
    using before_begin_is_one_step_before_begin[OF h1] h1 by blast
qed

text \<open>
  Claim C3. Let \<open>pos\<close> be a position of a list other than \<^verbatim>\<open>end()\<close>. If the copy
  constructor of the value throws during \<^verbatim>\<open>InsertAfter(pos, value)\<close>, the exception
  leaves the call with the store exactly as it was before: the list has the same
  cells, so the same element sequence, and the same size.
\<close>

theorem InsertAfter_copy_failure_leaves_list:
  assumes "is_list s this cs" and "i \<le> length cs" and "copy_throws T v"
  shows "\<exists>s'. InsertAfter nd T this (BasicIterator (Some ((this # map fst cs) ! i))) v s
                 = (Inl CopyFailed, s') \<and>
              s' = s \<and> is_list s' this cs \<and> GetSize s' this = GetSize s this"
proof -
  from is_listD[OF assms(1)] obtain hn where hn: "node_at s this = Some hn" and
    ch: "chain (node_at s) (Some this) ((this, val hn) # cs)" by blast
  have "(this # map fst cs) ! i = fst (((this, val hn) # cs) ! i)"
    using pos_in_full[OF assms(2)] .
  moreover have "((this, val hn) # cs) ! i \<in> set ((this, val hn) # cs)"
    using assms(2) by (intro nth_mem) simp
  ultimately have "(this # map fst cs) ! i \<in> fst ` set ((this, val hn) # cs)"
    by (simp only: image_eqI)
  then obtain bn where "node_at s ((this # map fst cs) ! i) = Some bn"
    using chain_dom[OF ch] by blast
  then have "InsertAfter nd T this (BasicIterator (Some ((this # map fst cs) ! i))) v s
               = (Inl CopyFailed, s)"
    using assms(3) by (simp add: InsertAfter_def new_Node_def)
  then show ?thesis using assms(1) by simp
qed

theorem InsertAfter_copy_failure_witness:
  "is_list list_1234 0 [(1, 1), (2, 2), (3, 3), (4, 4)] \<and> (1::nat) \<le> length [(1::nat, 1::int), (2, 2), (3, 3), (4, 4)] \<and>
   copy_throws fragile_ops 3 \<and>
   (\<exists>s'. InsertAfter False fragile_ops 0 (BasicIterator (Some ((0 # map fst [(1, 1::int), (2, 2), (3, 3), (4, 4)]) ! 1))) 3 list_1234
            = (Inl CopyFailed, s') \<and>
          s' = list_1234 \<and> is_list s' 0 [(1, 1), (2, 2), (3, 3), (4, 4)] \<and>
          GetSize s' 0 = GetSize list_1234 0)"
proof -
  have h1: "is_list list_1234 0 [(1, 1), (2, 2), (3, 3), (4, 4)]"
    by (simp add: is_list_def list_1234_def)
  have h2: "(1::nat) \<le> length [(1::nat, 1::int), (2, 2), (3, 3), (4, 4)]" by simp
  have h3: "copy_throws fragile_ops 3" by (simp add: fragile_ops_def)
  show ?thesis
    using InsertAfter_copy_failure_leaves_list[OF h1 h2 h3, of False] h1 h2 h3 by blast
qed

text \<open>
  Claim C4. Let \<open>pos\<close> be a position of a list whose node has a successor, that is an
  index \<open>i < length cs\<close>. \<^verbatim>\<open>EraseAfter(pos)\<close> returns normally; the list then holds the
  cells it held before without the one after \<open>pos\<close>, in the same order; the size has gone
  down by one; and the iterator returned is at the cell that now follows \<open>pos\<close>, or is
  \<^verbatim>\<open>end()\<close> when the erased cell was the last.
\<close>

theorem EraseAfter_removes_the_successor:
  assumes "is_list s this cs" and "i < length cs"
  shows "\<exists>s' n. EraseAfter nd this (BasicIterator (Some ((this # map fst cs) ! i))) s
                 = (Inr (BasicIterator (if Suc i < length cs then Some (fst (cs ! Suc i)) else None)), s') \<and>
              is_list s' this (take i cs @ drop (Suc i) cs) \<and>
              GetSize s this = Inr n \<and> GetSize s' this = Inr (n - 1) \<and>
              unat (n - 1) = length cs - 1"
proof -
  from EraseAfter_ok[OF assms, of nd] obtain s' n where
    s': "EraseAfter nd this (BasicIterator (Some ((this # map fst cs) ! i))) s
           = (Inr (BasicIterator (if Suc i < length cs then Some (fst (cs ! Suc i)) else None)), s')"
        "is_list s' this (take i cs @ drop (Suc i) cs)"
        "size_at s this = Some n" "size_at s' this = Some (n - 1)"
    by blast
  have "unat (n - 1) = length (take i cs @ drop (Suc i) cs)"
    using s'(2,4) by (simp add: is_list_def split: option.splits)
  then have "unat (n - 1) = length cs - 1" using assms(2) by simp
  then show ?thesis using s' by (simp add: GetSize_def)
qed

theorem EraseAfter_removes_the_successor_witness:
  "is_list list_1234 0 [(1, 1), (2, 2), (3, 3), (4, 4)] \<and>
   (1::nat) < length [(1::nat, 1::int), (2, 2), (3, 3), (4, 4)] \<and>
   (\<exists>s' n. EraseAfter False 0 (BasicIterator (Some ((0 # map fst [(1, 1::int), (2, 2), (3, 3), (4, 4)]) ! 1))) list_1234
              = (Inr (BasicIterator (if Suc 1 < length [(1::nat, 1::int), (2, 2), (3, 3), (4, 4)]
                                     then Some (fst ([(1, 1::int), (2, 2), (3, 3), (4, 4)] ! Suc 1)) else None)), s') \<and>
            is_list s' 0 (take 1 [(1, 1), (2, 2), (3, 3), (4, 4)] @ drop (Suc 1) [(1, 1), (2, 2), (3, 3), (4, 4)]) \<and>
            GetSize list_1234 0 = Inr n \<and> GetSize s' 0 = Inr (n - 1) \<and>
            unat (n - 1) = length [(1::nat, 1::int), (2, 2), (3, 3), (4, 4)] - 1)"
proof -
  have h1: "is_list list_1234 0 [(1, 1), (2, 2), (3, 3), (4, 4)]"
    by (simp add: is_list_def list_1234_def)
  have h2: "(1::nat) < length [(1::nat, 1::int), (2, 2), (3, 3), (4, 4)]" by simp
  show ?thesis
    using EraseAfter_removes_the_successor[OF h1 h2, of False] h1 h2 by blast
qed

text \<open>
  Claim C5. For two lists \<open>a\<close> and \<open>b\<close>, \<^verbatim>\<open>a < b\<close> returns whether the element sequence of
  \<open>a\<close> is lexicographically earlier than that of \<open>b\<close>, by the elements' own \<^verbatim>\<open><\<close>;
  \<^verbatim>\<open>a >= b\<close> returns the negation of that; \<^verbatim>\<open>a <= b\<close> returns the negation of \<^verbatim>\<open>b < a\<close>;
  and \<^verbatim>\<open>a > b\<close> returns \<^verbatim>\<open>b < a\<close>. All four return.
\<close>

theorem ordering_operators:
  assumes "is_list s a ca" and "is_list s b cb"
  shows "operator_lt T s a b = Some (Inr (lex_earlier (T_less T) (map snd ca) (map snd cb))) \<and>
         operator_ge T s a b = Some (Inr (\<not> lex_earlier (T_less T) (map snd ca) (map snd cb))) \<and>
         operator_le T s a b = Some (Inr (\<not> lex_earlier (T_less T) (map snd cb) (map snd ca))) \<and>
         operator_gt T s a b = Some (Inr (lex_earlier (T_less T) (map snd cb) (map snd ca)))"
proof -
  from is_listD[OF assms(1)] obtain ha where a: "node_at s a = Some ha"
    "chain (node_at s) (next_node ha) ca" by blast
  from is_listD[OF assms(2)] obtain hb where b: "node_at s b = Some hb"
    "chain (node_at s) (next_node hb) cb" by blast
  have ab: "operator_lt T s a b = Some (Inr (lex_earlier (T_less T) (map snd ca) (map snd cb)))"
    using std_lexicographical_compare_chain[OF a(2) b(2), of T] a(1) b(1)
    by (simp add: operator_lt_def list_begin_def lex_walk_is_lex_earlier)
  have ba: "operator_lt T s b a = Some (Inr (lex_earlier (T_less T) (map snd cb) (map snd ca)))"
    using std_lexicographical_compare_chain[OF b(2) a(2), of T] a(1) b(1)
    by (simp add: operator_lt_def list_begin_def lex_walk_is_lex_earlier)
  show ?thesis
    using ab ba by (simp add: operator_ge_def operator_gt_def operator_le_def)
qed

theorem ordering_operators_witness:
  "is_list lists_12_13 0 [(2, 1), (3, 2)] \<and> is_list lists_12_13 1 [(4, 1), (5, 3)] \<and>
   lex_earlier (T_less int_ops) (map snd [(2::nat, 1::int), (3, 2)]) (map snd [(4::nat, 1::int), (5, 3)]) \<and>
   \<not> lex_earlier (T_less int_ops) (map snd [(4::nat, 1::int), (5, 3)]) (map snd [(2::nat, 1::int), (3, 2)]) \<and>
   operator_lt int_ops lists_12_13 0 1 = Some (Inr True) \<and>
   operator_ge int_ops lists_12_13 0 1 = Some (Inr False) \<and>
   operator_le int_ops lists_12_13 0 1 = Some (Inr True) \<and>
   operator_gt int_ops lists_12_13 0 1 = Some (Inr False)"
proof -
  have h1: "is_list lists_12_13 0 [(2, 1), (3, 2)]"
    by (simp add: is_list_def lists_12_13_def)
  have h2: "is_list lists_12_13 1 [(4, 1), (5, 3)]"
    by (simp add: is_list_def lists_12_13_def)
  have e1: "lex_earlier (T_less int_ops) (map snd [(2::nat, 1::int), (3, 2)]) (map snd [(4::nat, 1::int), (5, 3)])"
    by (simp add: lex_earlier_def int_ops_def lessThan_Suc atMost_Suc)
  have e2: "\<not> lex_earlier (T_less int_ops) (map snd [(4::nat, 1::int), (5, 3)]) (map snd [(2::nat, 1::int), (3, 2)])"
    by (simp add: lex_earlier_def int_ops_def lessThan_Suc atMost_Suc)
  show ?thesis
    using ordering_operators[OF h1 h2, of int_ops] h1 h2 e1 e2 by simp
qed

text \<open>
  Claim C6. \<^verbatim>\<open>PushFront(v)\<close> followed by \<^verbatim>\<open>PopFront()\<close> restores the list: both calls
  return normally, the list holds the cells it held before, and its size is what it
  was. In fact every node and every size in the store is what it was; only the
  allocator has moved on. The list is taken to be in a valid state, the copy of \<open>v\<close>
  not to throw, and the size counter not to be at its last value, which no list in
  memory reaches.
\<close>

theorem PushFront_then_PopFront_restores:
  assumes "is_list s this cs" and "heap_ok s" and "\<not> copy_throws T v"
    and "Suc (length cs) < 2 ^ 64"
  shows "\<exists>s1 s2. PushFront T this v s = (Inr (), s1) \<and> PopFront nd this s1 = (Inr (), s2) \<and>
                 is_list s2 this cs \<and> GetSize s2 this = GetSize s this \<and>
                 node_at s2 = node_at s \<and> size_at s2 = size_at s"
proof -
  from PushFront_ok[OF assms] obtain s1 where
    s1: "PushFront T this v s = (Inr (), s1)" "is_list s1 this ((next_free s, v) # cs)"
        "\<forall>x. x \<noteq> this \<and> x \<noteq> next_free s \<longrightarrow> node_at s1 x = node_at s x"
        "\<forall>x. x \<noteq> this \<longrightarrow> size_at s1 x = size_at s x"
    by blast
  from PopFront_ok[OF s1(2), of nd] obtain s2 where
    s2: "PopFront nd this s1 = (Inr (), s2)" "is_list s2 this cs"
        "dom (node_at s2) = dom (node_at s1) - {fst (next_free s, v)}"
        "\<forall>x. x \<noteq> this \<and> x \<noteq> fst (next_free s, v) \<longrightarrow> node_at s2 x = node_at s1 x"
        "\<forall>x. x \<noteq> this \<longrightarrow> size_at s2 x = size_at s1 x"
    by blast
  from is_listD[OF assms(1)] obtain hn n where h: "node_at s this = Some hn"
    "size_at s this = Some n" "unat n = length cs" "chain (node_at s) (next_node hn) cs" by blast
  from is_listD[OF s2(2)] obtain hn2 n2 where h2: "node_at s2 this = Some hn2"
    "size_at s2 this = Some n2" "unat n2 = length cs" "chain (node_at s2) (next_node hn2) cs"
    by blast
  have n_eq: "n2 = n" using h(3) h2(3) by (simp add: word_unat_eq_iff)
  have sz: "size_at s2 = size_at s"
  proof
    fix x show "size_at s2 x = size_at s x"
      using s1(4) s2(5) h(2) h2(2) n_eq by (cases "x = this") auto
  qed
  have fresh: "node_at s (next_free s) = None"
    using assms(2) by (auto simp: heap_ok_def)
  have "next_free s \<notin> dom (node_at s2)" using s2(3) by simp
  then have gone: "node_at s2 (next_free s) = None" by blast
  have ne: "this \<noteq> next_free s" using h(1) fresh by auto
  have val_eq: "val hn2 = val hn"
    using h(1) h2(1) s1(1) s2(1)
    by (auto simp: PushFront_def PopFront_def new_Node_def Let_def assms(3)
             split: option.splits if_splits)
  have "chain (node_at s) (next_node hn2) cs"
  proof (rule chain_cong[OF h2(4)])
    fix a assume a: "a \<in> fst ` set cs"
    have "a \<noteq> this" using is_list_sentinel_notin[OF assms(1)] a by blast
    moreover have "a \<noteq> next_free s"
      using is_list_below[OF assms(1,2), of a] a by auto
    ultimately show "node_at s a = node_at s2 a" using s1(3) s2(4) by simp
  qed
  then have nx_eq: "next_node hn2 = next_node hn"
    using h(4) by (cases cs) (auto split: option.splits)
  have hn_eq: "hn2 = hn" using val_eq nx_eq by simp
  have nd_eq: "node_at s2 = node_at s"
  proof
    fix x show "node_at s2 x = node_at s x"
    proof (cases "x = this")
      case True
      then show ?thesis using h(1) h2(1) hn_eq by simp
    next
      case False
      then show ?thesis using s1(3) s2(4) fresh gone by (cases "x = next_free s") auto
    qed
  qed
  have "GetSize s2 this = GetSize s this" using sz by (simp add: GetSize_def)
  then show ?thesis using s1(1) s2(1,2) sz nd_eq by blast
qed

theorem PushFront_then_PopFront_witness:
  "is_list list_1234 0 [(1, 1), (2, 2), (3, 3), (4, 4)] \<and> heap_ok list_1234 \<and>
   \<not> copy_throws int_ops 7 \<and> Suc (length [(1::nat, 1::int), (2, 2), (3, 3), (4, 4)]) < 2 ^ 64 \<and>
   (\<exists>s1 s2. PushFront int_ops 0 7 list_1234 = (Inr (), s1) \<and>
             PopFront False 0 s1 = (Inr (), s2) \<and>
             is_list s2 0 [(1, 1), (2, 2), (3, 3), (4, 4)] \<and>
             GetSize s2 0 = GetSize list_1234 0 \<and>
             node_at s2 = node_at list_1234 \<and> size_at s2 = size_at list_1234)"
proof -
  have h1: "is_list list_1234 0 [(1, 1), (2, 2), (3, 3), (4, 4)]"
    by (simp add: is_list_def list_1234_def)
  have h2: "heap_ok list_1234" by (simp add: heap_ok_def list_1234_def)
  have h3: "\<not> copy_throws int_ops 7" by (simp add: int_ops_def)
  have h4: "Suc (length [(1::nat, 1::int), (2, 2), (3, 3), (4, 4)]) < 2 ^ 64" by simp
  show ?thesis
    using PushFront_then_PopFront_restores[OF h1 h2 h3 h4, of False] h1 h2 h3 h4 by blast
qed

text \<open>
  Claim C7. \<^verbatim>\<open>InsertAfter(before_begin(), v)\<close> and \<^verbatim>\<open>PushFront(v)\<close> end in the same
  store with the same outcome, whatever happens. When the copy of \<open>v\<close> does not throw,
  the list then has \<open>v\<close> in a new first cell, followed by the cells it held before, its
  size has grown by one, and the iterator returned by \<^verbatim>\<open>InsertAfter\<close> is \<^verbatim>\<open>begin()\<close>.
\<close>

theorem InsertAfter_before_begin_is_PushFront:
  assumes "is_list s this cs" and "heap_ok s" and "Suc (length cs) < 2 ^ 64"
  shows "PushFront T this v s =
           (case InsertAfter nd T this (before_begin this) v s of
              (r, s') \<Rightarrow> (map_sum id (\<lambda>it. ()) r, s')) \<and>
         (\<not> copy_throws T v \<longrightarrow>
            (\<exists>it s' n. InsertAfter nd T this (before_begin this) v s = (Inr it, s') \<and>
                      PushFront T this v s = (Inr (), s') \<and>
                      is_list s' this ((next_free s, v) # cs) \<and>
                      list_begin s' this = Inr it \<and>
                      GetSize s this = Inr n \<and> GetSize s' this = Inr (n + 1) \<and>
                      unat (n + 1) = Suc (length cs)))"
proof (intro conjI impI)
  show "PushFront T this v s =
           (case InsertAfter nd T this (before_begin this) v s of
              (r, s') \<Rightarrow> (map_sum id (\<lambda>it. ()) r, s'))"
    by (rule PushFront_as_InsertAfter)
next
  assume nt: "\<not> copy_throws T v"
  from InsertAfter_ok[OF assms(1,2) _ nt assms(3), of 0 nd] obtain s' where
    s': "InsertAfter nd T this (before_begin this) v s = (Inr (BasicIterator (Some (next_free s))), s')"
        "is_list s' this ((next_free s, v) # cs)"
    by (auto simp: before_begin_def)
  have pf: "PushFront T this v s = (Inr (), s')"
    using PushFront_as_InsertAfter[of T this v s nd] s'(1) by simp
  have lb: "list_begin s' this = Inr (BasicIterator (Some (next_free s)))"
    using s'(2) by (auto simp: is_list_def list_begin_def split: option.splits)
  from is_listD[OF assms(1)] obtain n where n: "size_at s this = Some n" "unat n = length cs"
    by blast
  have "size_at s' this = Some (n + 1)"
    using s'(1) n(1) nt
    by (auto simp: InsertAfter_def before_begin_def new_Node_def Let_def split: option.splits)
  moreover have "unat (n + 1) = Suc (length cs)"
    using unat_plus_one[of n] n(2) assms(3) by simp
  ultimately show "\<exists>it s' n. InsertAfter nd T this (before_begin this) v s = (Inr it, s') \<and>
                      PushFront T this v s = (Inr (), s') \<and>
                      is_list s' this ((next_free s, v) # cs) \<and>
                      list_begin s' this = Inr it \<and>
                      GetSize s this = Inr n \<and> GetSize s' this = Inr (n + 1) \<and>
                      unat (n + 1) = Suc (length cs)"
    using s' pf lb n(1) by (simp add: GetSize_def)
qed

theorem InsertAfter_before_begin_witness:
  "is_list list_1234 0 [(1, 1), (2, 2), (3, 3), (4, 4)] \<and> heap_ok list_1234 \<and>
   Suc (length [(1::nat, 1::int), (2, 2), (3, 3), (4, 4)]) < 2 ^ 64 \<and>
   \<not> copy_throws int_ops 123 \<and>
   (\<exists>it s' n. InsertAfter False int_ops 0 (before_begin 0) 123 list_1234 = (Inr it, s') \<and>
              PushFront int_ops 0 123 list_1234 = (Inr (), s') \<and>
              is_list s' 0 ((next_free list_1234, 123) # [(1, 1), (2, 2), (3, 3), (4, 4)]) \<and>
              list_begin s' 0 = Inr it \<and>
              GetSize list_1234 0 = Inr n \<and> GetSize s' 0 = Inr (n + 1) \<and>
              unat (n + 1) = Suc (length [(1::nat, 1::int), (2, 2), (3, 3), (4, 4)]))"
proof -
  have h1: "is_list list_1234 0 [(1, 1), (2, 2), (3, 3), (4, 4)]"
    by (simp add: is_list_def list_1234_def)
  have h2: "heap_ok list_1234" by (simp add: heap_ok_def list_1234_def)
  have h3: "Suc (length [(1::nat, 1::int), (2, 2), (3, 3), (4, 4)]) < 2 ^ 64" by simp
  have h4: "\<not> copy_throws int_ops 123" by (simp add: int_ops_def)
  show ?thesis
    using InsertAfter_before_begin_is_PushFront[OF h1 h2 h3, of int_ops 123 False] h1 h2 h3 h4
    by blast
qed

text \<open>
  Claim C8. Copy assignment \<^verbatim>\<open>a = b\<close>, for two valid lists that share no node, in a store
  that respects the allocator's contract. Self-assignment returns at once with the
  store untouched. Otherwise, when no element copy throws, the assignment returns
  normally, \<open>a\<close> then holds the element sequence of \<open>b\<close>, and \<open>b\<close> holds the cells it held
  before. When the copy of some element of \<open>b\<close> throws, the exception leaves the
  assignment with \<open>a\<close> holding exactly the cells it held before the call, and \<open>b\<close> as
  well. In every case the assignment returns.
\<close>

theorem copy_assignment:
  assumes "heap_ok s" and "is_list s a ca" and "is_list s b cb" and "separate a ca b cb"
  shows "operator_assign nd T a a s = Some (Inr (), s) \<and>
         ((\<forall>v \<in> set (map snd cb). \<not> copy_throws T v) \<longrightarrow>
            (\<exists>s' cs'. operator_assign nd T a b s = Some (Inr (), s') \<and>
                      is_list s' a cs' \<and> map snd cs' = map snd cb \<and> is_list s' b cb)) \<and>
         ((\<exists>v \<in> set (map snd cb). copy_throws T v) \<longrightarrow>
            (\<exists>s'. operator_assign nd T a b s = Some (Inl CopyFailed, s') \<and>
                  is_list s' a ca \<and> is_list s' b cb))"
proof (intro conjI impI)
  show "operator_assign nd T a a s = Some (Inr (), s)"
    by (simp add: operator_assign_def)
next
  assume all: "\<forall>v \<in> set (map snd cb). \<not> copy_throws T v"
  from operator_assign_ok[OF assms, of nd T] obtain s' cs' where
    "operator_assign nd T a b s
       = Some ((if \<forall>v \<in> set (map snd cb). \<not> copy_throws T v then Inr () else Inl CopyFailed), s')"
    "is_list s' a cs'"
    "if \<forall>v \<in> set (map snd cb). \<not> copy_throws T v then map snd cs' = map snd cb else cs' = ca"
    "is_list s' b cb"
    by (elim exE conjE) iprover
  then have "operator_assign nd T a b s = Some (Inr (), s') \<and>
             is_list s' a cs' \<and> map snd cs' = map snd cb \<and> is_list s' b cb"
    using all by (simp del: set_map)
  then show "\<exists>s' cs'. operator_assign nd T a b s = Some (Inr (), s') \<and>
                      is_list s' a cs' \<and> map snd cs' = map snd cb \<and> is_list s' b cb"
    by blast
next
  assume ex: "\<exists>v \<in> set (map snd cb). copy_throws T v"
  from operator_assign_ok[OF assms, of nd T] obtain s' cs' where
    "operator_assign nd T a b s
       = Some ((if \<forall>v \<in> set (map snd cb). \<not> copy_throws T v then Inr () else Inl CopyFailed), s')"
    "is_list s' a cs'"
    "if \<forall>v \<in> set (map snd cb). \<not> copy_throws T v then map snd cs' = map snd cb else cs' = ca"
    "is_list s' b cb"
    by (elim exE conjE) iprover
  moreover have "\<not> (\<forall>v \<in> set (map snd cb). \<not> copy_throws T v)" using ex by blast
  ultimately have "operator_assign nd T a b s = Some (Inl CopyFailed, s') \<and>
                   is_list s' a ca \<and> is_list s' b cb"
    by (simp del: set_map)
  then show "\<exists>s'. operator_assign nd T a b s = Some (Inl CopyFailed, s') \<and>
                  is_list s' a ca \<and> is_list s' b cb"
    by blast
qed

theorem copy_assignment_witness:
  "heap_ok lists_12_13 \<and> is_list lists_12_13 0 [(2, 1), (3, 2)] \<and>
   is_list lists_12_13 1 [(4, 1), (5, 3)] \<and>
   separate 0 [(2, 1::int), (3, 2)] 1 [(4, 1::int), (5, 3)] \<and>
   operator_assign False int_ops 0 0 lists_12_13 = Some (Inr (), lists_12_13) \<and>
   \<not> copy_throws int_ops 1 \<and> \<not> copy_throws int_ops 3 \<and>
   (\<exists>s' cs'. operator_assign False int_ops 0 1 lists_12_13 = Some (Inr (), s') \<and>
             is_list s' 0 cs' \<and> map snd cs' = map snd [(4::nat, 1::int), (5, 3)] \<and>
             is_list s' 1 [(4, 1), (5, 3)]) \<and>
   copy_throws fragile_ops 3 \<and>
   (\<exists>s'. operator_assign False fragile_ops 0 1 lists_12_13 = Some (Inl CopyFailed, s') \<and>
         is_list s' 0 [(2, 1), (3, 2)] \<and> is_list s' 1 [(4, 1), (5, 3)])"
proof -
  have h1: "heap_ok lists_12_13" by (simp add: heap_ok_def lists_12_13_def)
  have h2: "is_list lists_12_13 0 [(2, 1), (3, 2)]"
    by (simp add: is_list_def lists_12_13_def)
  have h3: "is_list lists_12_13 1 [(4, 1), (5, 3)]"
    by (simp add: is_list_def lists_12_13_def)
  have h4: "separate 0 [(2, 1::int), (3, 2)] 1 [(4, 1::int), (5, 3)]"
    by (simp add: separate_def)
  have e1: "\<forall>v \<in> set (map snd [(4::nat, 1::int), (5, 3)]). \<not> copy_throws int_ops v"
    by (simp add: int_ops_def)
  have e2: "\<exists>v \<in> set (map snd [(4::nat, 1::int), (5, 3)]). copy_throws fragile_ops v"
    by (simp add: fragile_ops_def)
  note t1 = copy_assignment[OF h1 h2 h3 h4, of False int_ops]
  note t2 = copy_assignment[OF h1 h2 h3 h4, of False fragile_ops]
  from t1 e1 have r1: "operator_assign False int_ops 0 0 lists_12_13 = Some (Inr (), lists_12_13)"
    and r2: "\<exists>s' cs'. operator_assign False int_ops 0 1 lists_12_13 = Some (Inr (), s') \<and>
             is_list s' 0 cs' \<and> map snd cs' = map snd [(4::nat, 1::int), (5, 3)] \<and>
             is_list s' 1 [(4, 1), (5, 3)]"
    by blast+
  from t2 e2 have r3: "\<exists>s'. operator_assign False fragile_ops 0 1 lists_12_13 = Some (Inl CopyFailed, s') \<and>
         is_list s' 0 [(2, 1), (3, 2)] \<and> is_list s' 1 [(4, 1), (5, 3)]"
    by blast
  have e3: "\<not> copy_throws int_ops 1" "\<not> copy_throws int_ops 3" "copy_throws fragile_ops 3"
    by (simp_all add: int_ops_def fragile_ops_def)
  show ?thesis using h1 h2 h3 h4 e3 r1 r2 r3 by (intro conjI)
qed

text \<open>
  Claim C9. The invariant of a list object: its \<^verbatim>\<open>size_\<close> is the number of nodes on the
  chain from its sentinel to \<^verbatim>\<open>nullptr\<close>, and that chain is finite. Every operation
  preserves it, each under its own precondition and whatever its outcome:
  \<^item> the default constructor, in any store, for any storage;
  \<^item> the constructor from a list of values, for an object in allocated storage;
  \<^item> the copy constructor, for an object in allocated storage that is no part of the
    source list, which stays as it is;
  \<^item> \<^verbatim>\<open>PushFront\<close> and \<^verbatim>\<open>InsertAfter\<close> at any position but \<^verbatim>\<open>end()\<close>, on a valid list whose
    size counter is not at its last value;
  \<^item> \<^verbatim>\<open>PopFront\<close> and \<^verbatim>\<open>Clear\<close> on a valid list, \<^verbatim>\<open>EraseAfter\<close> at any position with a
    successor;
  \<^item> \<^verbatim>\<open>swap\<close> of two valid lists, neither sentinel being a node of the other;
  \<^item> assignment, of a list to itself and between two valid lists that share no node.

  The constructors, \<^verbatim>\<open>Clear\<close> and the assignment return. The operations that allocate
  take the store to respect the allocator's contract, and every operation leaves it so.
  Each operation also leaves every other list \<open>l\<close> of the store with the cells it had,
  provided \<open>l\<close> shares nothing with what the operation works on.
\<close>

theorem invariant_is_preserved:
  "(invariant (SingleLinkedList_default T fresh s) fresh \<and>
    (heap_ok s \<and> fresh < next_free s \<longrightarrow> heap_ok (SingleLinkedList_default T fresh s)) \<and>
    (\<forall>l cl. is_list s l cl \<and> fresh \<notin> insert l (fst ` set cl) \<longrightarrow>
        is_list (SingleLinkedList_default T fresh s) l cl)) \<and>
   (heap_ok s \<and> fresh < next_free s \<and> length vs < 2 ^ 64 \<longrightarrow>
      (\<exists>r s'. SingleLinkedList_init nd T fresh vs s = Some (r, s') \<and>
          invariant s' fresh \<and> heap_ok s' \<and>
          (\<forall>l cl. is_list s l cl \<and> fresh \<notin> insert l (fst ` set cl) \<longrightarrow> is_list s' l cl))) \<and>
   (heap_ok s \<and> is_list s this cs \<and> fresh < next_free s \<and>
    fresh \<notin> insert this (fst ` set cs) \<longrightarrow>
      (\<exists>r s'. SingleLinkedList_copy nd T fresh this s = Some (r, s') \<and>
          invariant s' fresh \<and> is_list s' this cs \<and> heap_ok s' \<and>
          (\<forall>l cl. is_list s l cl \<and> fresh \<notin> insert l (fst ` set cl) \<longrightarrow> is_list s' l cl))) \<and>
   (heap_ok s \<and> is_list s this cs \<and> Suc (length cs) < 2 ^ 64 \<longrightarrow>
      invariant (snd (PushFront T this v s)) this \<and> heap_ok (snd (PushFront T this v s)) \<and>
      (\<forall>l cl. is_list s l cl \<and> separate this cs l cl \<longrightarrow>
          is_list (snd (PushFront T this v s)) l cl)) \<and>
   (is_list s this cs \<longrightarrow>
      invariant (snd (PopFront nd this s)) this \<and>
      (heap_ok s \<longrightarrow> heap_ok (snd (PopFront nd this s))) \<and>
      (\<forall>l cl. is_list s l cl \<and> separate this cs l cl \<longrightarrow>
          is_list (snd (PopFront nd this s)) l cl)) \<and>
   (heap_ok s \<and> is_list s this cs \<and> Suc (length cs) < 2 ^ 64 \<and> i \<le> length cs \<longrightarrow>
      invariant (snd (InsertAfter nd T this (BasicIterator (Some ((this # map fst cs) ! i))) v s)) this \<and>
      heap_ok (snd (InsertAfter nd T this (BasicIterator (Some ((this # map fst cs) ! i))) v s)) \<and>
      (\<forall>l cl. is_list s l cl \<and> separate this cs l cl \<longrightarrow>
          is_list (snd (InsertAfter nd T this (BasicIterator (Some ((this # map fst cs) ! i))) v s))
            l cl)) \<and>
   (is_list s this cs \<and> i < length cs \<longrightarrow>
      invariant (snd (EraseAfter nd this (BasicIterator (Some ((this # map fst cs) ! i))) s)) this \<and>
      (heap_ok s \<longrightarrow>
         heap_ok (snd (EraseAfter nd this (BasicIterator (Some ((this # map fst cs) ! i))) s))) \<and>
      (\<forall>l cl. is_list s l cl \<and> separate this cs l cl \<longrightarrow>
          is_list (snd (EraseAfter nd this (BasicIterator (Some ((this # map fst cs) ! i))) s))
            l cl)) \<and>
   (is_list s this cs \<longrightarrow>
      (\<exists>s'. Clear nd this s = Some (Inr (), s') \<and> invariant s' this \<and>
          (heap_ok s \<longrightarrow> heap_ok s') \<and>
          (\<forall>l cl. is_list s l cl \<and> separate this cs l cl \<longrightarrow> is_list s' l cl))) \<and>
   (is_list s this cs \<and> is_list s other co \<and> this \<notin> fst ` set co \<and> other \<notin> fst ` set cs \<longrightarrow>
      (\<exists>s'. swap this other s = (Inr (), s') \<and> invariant s' this \<and> invariant s' other \<and>
          (heap_ok s \<longrightarrow> heap_ok s') \<and>
          (\<forall>l cl. is_list s l cl \<and> this \<notin> insert l (fst ` set cl) \<and>
                  other \<notin> insert l (fst ` set cl) \<longrightarrow> is_list s' l cl))) \<and>
   operator_assign nd T this this s = Some (Inr (), s) \<and>
   (heap_ok s \<and> is_list s this cs \<and> is_list s other co \<and> separate this cs other co \<longrightarrow>
      (\<exists>r s'. operator_assign nd T this other s = Some (r, s') \<and>
          invariant s' this \<and> invariant s' other \<and> heap_ok s' \<and>
          (\<forall>l cl. is_list s l cl \<and> separate this cs l cl \<longrightarrow> is_list s' l cl)))"
proof -
  note c0 = default_ctor_keeps[of T fresh s]
  have c1: "heap_ok s \<and> fresh < next_free s \<and> length vs < 2 ^ 64 \<longrightarrow>
      (\<exists>r s'. SingleLinkedList_init nd T fresh vs s = Some (r, s') \<and>
          invariant s' fresh \<and> heap_ok s' \<and>
          (\<forall>l cl. is_list s l cl \<and> fresh \<notin> insert l (fst ` set cl) \<longrightarrow> is_list s' l cl))"
    using init_ctor_keeps[of s fresh vs nd T] by blast
  have c2: "heap_ok s \<and> is_list s this cs \<and> fresh < next_free s \<and>
    fresh \<notin> insert this (fst ` set cs) \<longrightarrow>
      (\<exists>r s'. SingleLinkedList_copy nd T fresh this s = Some (r, s') \<and>
          invariant s' fresh \<and> is_list s' this cs \<and> heap_ok s' \<and>
          (\<forall>l cl. is_list s l cl \<and> fresh \<notin> insert l (fst ` set cl) \<longrightarrow> is_list s' l cl))"
    using copy_ctor_keeps[of s this cs fresh nd T] by blast
  have pu: "heap_ok s \<and> is_list s this cs \<and> Suc (length cs) < 2 ^ 64 \<longrightarrow>
      invariant (snd (PushFront T this v s)) this \<and> heap_ok (snd (PushFront T this v s)) \<and>
      (\<forall>l cl. is_list s l cl \<and> separate this cs l cl \<longrightarrow>
          is_list (snd (PushFront T this v s)) l cl)"
    using PushFront_keeps[of s this cs T v] by blast
  have po: "is_list s this cs \<longrightarrow>
      invariant (snd (PopFront nd this s)) this \<and>
      (heap_ok s \<longrightarrow> heap_ok (snd (PopFront nd this s))) \<and>
      (\<forall>l cl. is_list s l cl \<and> separate this cs l cl \<longrightarrow>
          is_list (snd (PopFront nd this s)) l cl)"
    using PopFront_keeps[of s this cs nd] by blast
  have ia: "heap_ok s \<and> is_list s this cs \<and> Suc (length cs) < 2 ^ 64 \<and> i \<le> length cs \<longrightarrow>
      invariant (snd (InsertAfter nd T this (BasicIterator (Some ((this # map fst cs) ! i))) v s)) this \<and>
      heap_ok (snd (InsertAfter nd T this (BasicIterator (Some ((this # map fst cs) ! i))) v s)) \<and>
      (\<forall>l cl. is_list s l cl \<and> separate this cs l cl \<longrightarrow>
          is_list (snd (InsertAfter nd T this (BasicIterator (Some ((this # map fst cs) ! i))) v s))
            l cl)"
    using InsertAfter_keeps[of s this cs i nd T v] by blast
  have ea: "is_list s this cs \<and> i < length cs \<longrightarrow>
      invariant (snd (EraseAfter nd this (BasicIterator (Some ((this # map fst cs) ! i))) s)) this \<and>
      (heap_ok s \<longrightarrow>
         heap_ok (snd (EraseAfter nd this (BasicIterator (Some ((this # map fst cs) ! i))) s))) \<and>
      (\<forall>l cl. is_list s l cl \<and> separate this cs l cl \<longrightarrow>
          is_list (snd (EraseAfter nd this (BasicIterator (Some ((this # map fst cs) ! i))) s))
            l cl)"
    using EraseAfter_keeps[of s this cs i nd] by blast
  have cl: "is_list s this cs \<longrightarrow>
      (\<exists>s'. Clear nd this s = Some (Inr (), s') \<and> invariant s' this \<and>
          (heap_ok s \<longrightarrow> heap_ok s') \<and>
          (\<forall>l cl. is_list s l cl \<and> separate this cs l cl \<longrightarrow> is_list s' l cl))"
    using Clear_keeps[of s this cs nd] by blast
  have sw: "is_list s this cs \<and> is_list s other co \<and> this \<notin> fst ` set co \<and> other \<notin> fst ` set cs \<longrightarrow>
      (\<exists>s'. swap this other s = (Inr (), s') \<and> invariant s' this \<and> invariant s' other \<and>
          (heap_ok s \<longrightarrow> heap_ok s') \<and>
          (\<forall>l cl. is_list s l cl \<and> this \<notin> insert l (fst ` set cl) \<and>
                  other \<notin> insert l (fst ` set cl) \<longrightarrow> is_list s' l cl))"
    using swap_keeps[of s this cs other co] by blast
  have self: "operator_assign nd T this this s = Some (Inr (), s)"
    by (simp add: operator_assign_def)
  have asg: "heap_ok s \<and> is_list s this cs \<and> is_list s other co \<and> separate this cs other co \<longrightarrow>
      (\<exists>r s'. operator_assign nd T this other s = Some (r, s') \<and>
          invariant s' this \<and> invariant s' other \<and> heap_ok s' \<and>
          (\<forall>l cl. is_list s l cl \<and> separate this cs l cl \<longrightarrow> is_list s' l cl))"
    using operator_assign_keeps[of s this cs other co nd T] by blast
  show ?thesis
    by (rule conjI[OF c0 conjI[OF c1 conjI[OF c2 conjI[OF pu conjI[OF po conjI[OF ia
          conjI[OF ea conjI[OF cl conjI[OF sw conjI[OF self asg]]]]]]]]]])
qed

theorem invariant_is_preserved_witness:
  "invariant (SingleLinkedList_default int_ops 0 empty_store) 0 \<and>
   heap_ok empty_store \<and> 0 < next_free empty_store \<and> length [7::int, 8] < 2 ^ 64 \<and>
   (\<exists>r s'. SingleLinkedList_init False int_ops 0 [7, 8] empty_store = Some (r, s') \<and>
           invariant s' 0 \<and> heap_ok s') \<and>
   heap_ok list_1234 \<and> is_list list_1234 0 [(1, 1), (2, 2), (3, 3), (4, 4)] \<and>
   Suc (length [(1::nat, 1::int), (2, 2), (3, 3), (4, 4)]) < 2 ^ 64 \<and>
   (1::nat) \<le> length [(1::nat, 1::int), (2, 2), (3, 3), (4, 4)] \<and>
   (1::nat) < length [(1::nat, 1::int), (2, 2), (3, 3), (4, 4)] \<and>
   invariant (snd (PushFront int_ops 0 9 list_1234)) 0 \<and>
   invariant (snd (PopFront False 0 list_1234)) 0 \<and>
   invariant (snd (InsertAfter False int_ops 0
       (BasicIterator (Some ((0 # map fst [(1, 1::int), (2, 2), (3, 3), (4, 4)]) ! 1))) 9 list_1234)) 0 \<and>
   invariant (snd (EraseAfter False 0
       (BasicIterator (Some ((0 # map fst [(1, 1::int), (2, 2), (3, 3), (4, 4)]) ! 1))) list_1234)) 0 \<and>
   (\<exists>s'. Clear False 0 list_1234 = Some (Inr (), s') \<and> invariant s' 0 \<and> heap_ok s') \<and>
   heap_ok two_lists \<and> is_list two_lists 0 [] \<and> is_list two_lists 1 [(2, 1)] \<and>
   separate 1 [(2, 1::int)] 0 ([] :: (addr \<times> int) list) \<and>
   invariant (snd (PopFront True 0 two_lists)) 0 \<and>
   is_list (snd (PushFront int_ops 1 5 two_lists)) 0 [] \<and>
   (\<exists>s'. swap 1 0 two_lists = (Inr (), s') \<and> invariant s' 1 \<and> invariant s' 0) \<and>
   heap_ok lists_12_13 \<and> is_list lists_12_13 0 [(2, 1), (3, 2)] \<and>
   is_list lists_12_13 1 [(4, 1), (5, 3)] \<and>
   separate 0 [(2, 1::int), (3, 2)] 1 [(4, 1::int), (5, 3)] \<and>
   6 < next_free lists_12_13 \<and>
   (\<exists>r s'. SingleLinkedList_copy False int_ops 6 0 lists_12_13 = Some (r, s') \<and>
           invariant s' 6 \<and> is_list s' 0 [(2, 1), (3, 2)] \<and> is_list s' 1 [(4, 1), (5, 3)]) \<and>
   operator_assign False int_ops 0 0 lists_12_13 = Some (Inr (), lists_12_13) \<and>
   (\<exists>r s'. operator_assign False int_ops 0 1 lists_12_13 = Some (r, s') \<and>
           invariant s' 0 \<and> invariant s' 1 \<and> heap_ok s')"
proof -
  have e1: "heap_ok empty_store" by (simp add: heap_ok_def empty_store_def)
  have e2: "0 < next_free empty_store" by (simp add: empty_store_def)
  have e3: "length [7::int, 8] < 2 ^ 64" by simp
  note te = invariant_is_preserved[where s = empty_store and fresh = 0 and T = int_ops
      and nd = False and vs = "[7, 8]"]
  have w1: "invariant (SingleLinkedList_default int_ops 0 empty_store) 0"
    by (rule te[THEN conjunct1, THEN conjunct1])
  have "\<exists>r s'. SingleLinkedList_init False int_ops 0 [7, 8] empty_store = Some (r, s') \<and>
           invariant s' 0 \<and> heap_ok s' \<and>
           (\<forall>l cl. is_list empty_store l cl \<and> 0 \<notin> insert l (fst ` set cl) \<longrightarrow> is_list s' l cl)"
    by (rule mp[OF te[THEN conjunct2, THEN conjunct1]]) (intro conjI e1 e2 e3)
  then have w2: "\<exists>r s'. SingleLinkedList_init False int_ops 0 [7, 8] empty_store = Some (r, s') \<and>
           invariant s' 0 \<and> heap_ok s'"
    by (elim exE conjE) iprover
  have a1: "heap_ok list_1234" by (simp add: heap_ok_def list_1234_def)
  have a2: "is_list list_1234 0 [(1, 1), (2, 2), (3, 3), (4, 4)]"
    by (simp add: is_list_def list_1234_def)
  have a3: "Suc (length [(1::nat, 1::int), (2, 2), (3, 3), (4, 4)]) < 2 ^ 64" by simp
  have a4: "(1::nat) \<le> length [(1::nat, 1::int), (2, 2), (3, 3), (4, 4)]" by simp
  have a5: "(1::nat) < length [(1::nat, 1::int), (2, 2), (3, 3), (4, 4)]" by simp
  note ta = invariant_is_preserved[where s = list_1234 and this = 0
      and cs = "[(1, 1), (2, 2), (3, 3), (4, 4)]" and T = int_ops and nd = False
      and i = 1 and v = 9]
  have w3: "invariant (snd (PushFront int_ops 0 9 list_1234)) 0"
    by (rule mp[OF ta[THEN conjunct2, THEN conjunct2, THEN conjunct2, THEN conjunct1], THEN conjunct1]) (intro conjI a1 a2 a3)
  have w4: "invariant (snd (PopFront False 0 list_1234)) 0"
    by (rule mp[OF ta[THEN conjunct2, THEN conjunct2, THEN conjunct2, THEN conjunct2, THEN conjunct1] a2, THEN conjunct1])
  have w5: "invariant (snd (InsertAfter False int_ops 0
       (BasicIterator (Some ((0 # map fst [(1, 1::int), (2, 2), (3, 3), (4, 4)]) ! 1))) 9 list_1234)) 0"
    by (rule mp[OF ta[THEN conjunct2, THEN conjunct2, THEN conjunct2, THEN conjunct2, THEN conjunct2, THEN conjunct1], THEN conjunct1]) (intro conjI a1 a2 a3 a4)
  have w6: "invariant (snd (EraseAfter False 0
       (BasicIterator (Some ((0 # map fst [(1, 1::int), (2, 2), (3, 3), (4, 4)]) ! 1))) list_1234)) 0"
    by (rule mp[OF ta[THEN conjunct2, THEN conjunct2, THEN conjunct2, THEN conjunct2, THEN conjunct2, THEN conjunct2, THEN conjunct1], THEN conjunct1]) (intro conjI a2 a5)
  have "\<exists>s'. Clear False 0 list_1234 = Some (Inr (), s') \<and> invariant s' 0 \<and>
          (heap_ok list_1234 \<longrightarrow> heap_ok s') \<and>
          (\<forall>l cl. is_list list_1234 l cl \<and> separate 0 [(1, 1), (2, 2), (3, 3), (4, 4)] l cl \<longrightarrow>
               is_list s' l cl)"
    by (rule mp[OF ta[THEN conjunct2, THEN conjunct2, THEN conjunct2, THEN conjunct2, THEN conjunct2, THEN conjunct2, THEN conjunct2, THEN conjunct1] a2])
  then have w7: "\<exists>s'. Clear False 0 list_1234 = Some (Inr (), s') \<and> invariant s' 0 \<and> heap_ok s'"
    using a1 by (elim exE conjE) iprover
  have b1: "heap_ok two_lists" by (simp add: heap_ok_def two_lists_def)
  have b2: "is_list two_lists 0 []" by (simp add: is_list_def two_lists_def)
  have b3: "is_list two_lists 1 [(2, 1)]" by (simp add: is_list_def two_lists_def)
  have b4: "separate 1 [(2, 1::int)] 0 ([] :: (addr \<times> int) list)" by (simp add: separate_def)
  have b5: "Suc (length [(2::nat, 1::int)]) < 2 ^ 64" by simp
  have b6: "(1::nat) \<notin> fst ` set ([] :: (addr \<times> int) list)"
    and b7: "(0::nat) \<notin> fst ` set [(2::nat, 1::int)]"
    by simp_all
  note tb0 = invariant_is_preserved[where s = two_lists and this = 0
      and cs = "[] :: (addr \<times> int) list" and nd = True]
  have w8: "invariant (snd (PopFront True 0 two_lists)) 0"
    by (rule mp[OF tb0[THEN conjunct2, THEN conjunct2, THEN conjunct2, THEN conjunct2, THEN conjunct1] b2, THEN conjunct1])
  note tb1 = invariant_is_preserved[where s = two_lists and this = 1 and cs = "[(2, 1)]"
      and other = 0 and co = "[] :: (addr \<times> int) list" and T = int_ops and v = 5]
  have "\<forall>l cl. is_list two_lists l cl \<and> separate 1 [(2, 1)] l cl \<longrightarrow>
          is_list (snd (PushFront int_ops 1 5 two_lists)) l cl"
    by (rule mp[OF tb1[THEN conjunct2, THEN conjunct2, THEN conjunct2, THEN conjunct1], THEN conjunct2, THEN conjunct2]) (intro conjI b1 b3 b5)
  then have w9: "is_list (snd (PushFront int_ops 1 5 two_lists)) 0 []"
    using b2 b4 by blast
  have "\<exists>s'. swap 1 0 two_lists = (Inr (), s') \<and> invariant s' 1 \<and> invariant s' 0 \<and>
          (heap_ok two_lists \<longrightarrow> heap_ok s') \<and>
          (\<forall>l cl. is_list two_lists l cl \<and> 1 \<notin> insert l (fst ` set cl) \<and>
                  0 \<notin> insert l (fst ` set cl) \<longrightarrow> is_list s' l cl)"
    by (rule mp[OF tb1[THEN conjunct2, THEN conjunct2, THEN conjunct2, THEN conjunct2, THEN conjunct2, THEN conjunct2, THEN conjunct2, THEN conjunct2, THEN conjunct1]]) (intro conjI b2 b3 b6 b7)
  then have w10: "\<exists>s'. swap 1 0 two_lists = (Inr (), s') \<and> invariant s' 1 \<and> invariant s' 0"
    by (elim exE conjE) iprover
  have c1: "heap_ok lists_12_13" by (simp add: heap_ok_def lists_12_13_def)
  have c2: "is_list lists_12_13 0 [(2, 1), (3, 2)]" by (simp add: is_list_def lists_12_13_def)
  have c3: "is_list lists_12_13 1 [(4, 1), (5, 3)]" by (simp add: is_list_def lists_12_13_def)
  have c4: "separate 0 [(2, 1::int), (3, 2)] 1 [(4, 1::int), (5, 3)]" by (simp add: separate_def)
  have c5: "6 < next_free lists_12_13" by (simp add: lists_12_13_def)
  have c6: "(6::nat) \<notin> insert 0 (fst ` set [(2::nat, 1::int), (3, 2)])"
    and c7: "(6::nat) \<notin> insert 1 (fst ` set [(4::nat, 1::int), (5, 3)])" by simp_all
  note tc = invariant_is_preserved[where s = lists_12_13 and this = 0 and cs = "[(2, 1), (3, 2)]"
      and other = 1 and co = "[(4, 1), (5, 3)]" and T = int_ops and nd = False and fresh = 6]
  have "\<exists>r s'. SingleLinkedList_copy False int_ops 6 0 lists_12_13 = Some (r, s') \<and>
          invariant s' 6 \<and> is_list s' 0 [(2, 1), (3, 2)] \<and> heap_ok s' \<and>
          (\<forall>l cl. is_list lists_12_13 l cl \<and> 6 \<notin> insert l (fst ` set cl) \<longrightarrow> is_list s' l cl)"
    by (rule mp[OF tc[THEN conjunct2, THEN conjunct2, THEN conjunct1]]) (intro conjI c1 c2 c5 c6)
  then obtain r s' where cp: "SingleLinkedList_copy False int_ops 6 0 lists_12_13 = Some (r, s')"
    "invariant s' 6" "is_list s' 0 [(2, 1), (3, 2)]"
    "\<forall>l cl. is_list lists_12_13 l cl \<and> 6 \<notin> insert l (fst ` set cl) \<longrightarrow> is_list s' l cl"
    by (elim exE conjE) iprover
  have "is_list s' 1 [(4, 1), (5, 3)]" using cp(4) c3 c7 by blast
  then have w11: "\<exists>r s'. SingleLinkedList_copy False int_ops 6 0 lists_12_13 = Some (r, s') \<and>
           invariant s' 6 \<and> is_list s' 0 [(2, 1), (3, 2)] \<and> is_list s' 1 [(4, 1), (5, 3)]"
    using cp(1,2,3) by blast
  have w12: "operator_assign False int_ops 0 0 lists_12_13 = Some (Inr (), lists_12_13)"
    by (rule tc[THEN conjunct2, THEN conjunct2, THEN conjunct2, THEN conjunct2, THEN conjunct2, THEN conjunct2, THEN conjunct2, THEN conjunct2, THEN conjunct2, THEN conjunct1])
  have "\<exists>r s'. operator_assign False int_ops 0 1 lists_12_13 = Some (r, s') \<and>
          invariant s' 0 \<and> invariant s' 1 \<and> heap_ok s' \<and>
          (\<forall>l cl. is_list lists_12_13 l cl \<and> separate 0 [(2, 1), (3, 2)] l cl \<longrightarrow> is_list s' l cl)"
    by (rule mp[OF tc[THEN conjunct2, THEN conjunct2, THEN conjunct2, THEN conjunct2, THEN conjunct2, THEN conjunct2, THEN conjunct2, THEN conjunct2, THEN conjunct2, THEN conjunct2]]) (intro conjI c1 c2 c3 c4)
  then have w13: "\<exists>r s'. operator_assign False int_ops 0 1 lists_12_13 = Some (r, s') \<and>
           invariant s' 0 \<and> invariant s' 1 \<and> heap_ok s'"
    by (elim exE conjE) iprover
  show ?thesis
    using w1 e1 e2 e3 w2 a1 a2 a3 a4 a5 w3 w4 w5 w6 w7 b1 b2 b3 b4 w8 w9 w10
      c1 c2 c3 c4 c5 w11 w12 w13
    by (intro conjI)
qed

text \<open>
  Claim C10. In a build without assertions, \<^verbatim>\<open>PopFront()\<close> on an empty list returns
  normally and leaves the store as it was: the size is still 0 and the chain still empty.
\<close>

theorem PopFront_on_empty_list:
  assumes "is_list s this []"
  shows "PopFront True this s = (Inr (), s)"
  using assms by (auto simp: is_list_def PopFront_def unat_0_iff split: option.splits)

theorem PopFront_on_empty_list_witness:
  "is_list two_lists 0 [] \<and> PopFront True 0 two_lists = (Inr (), two_lists)"
proof -
  have h: "is_list two_lists 0 []" by (simp add: is_list_def two_lists_def)
  show ?thesis using PopFront_on_empty_list[OF h] h by simp
qed

end
